theory Spec2Isabelle
  imports Main "HOL-Library.Sublist"
begin

section \<open>The peer of the chat relay: read pump and write pump (client.go)\<close>

text \<open>
  The development follows \<^verbatim>\<open>client.go\<close>: the constants, the normalization that the
  read pump applies to every payload, the read pump and the write pump. Both pumps are
  sequential programs that talk to an environment (the websocket connection, the clock,
  the channel \<^verbatim>\<open>c.send\<close> filled by the hub). The environment is an explicit input of
  the model, and every call a pump makes on the connection, the hub or the channel is
  recorded in a trace of events, in program order.
\<close>

subsection \<open>Constants\<close>

text \<open>
  \<^verbatim>\<open>time.Duration\<close> and the clock count nanoseconds. The constants of the source are
  constant expressions, evaluated exactly; the division of positive numbers truncates as
  \<open>div\<close> does.
\<close>

type_synonym bytes = "char list"
type_synonym time = int

definition Second :: int where
  "Second = 1000000000"

definition writeWait :: int where
  "writeWait = 10 * Second"

definition pongWait :: int where
  "pongWait = 60 * Second"

definition pingPeriod :: int where
  "pingPeriod = (pongWait * 9) div 10"

definition maxMessageSize :: int where
  "maxMessageSize = 512"

definition newline :: bytes where
  "newline = [CHR 0x0A]"

definition space :: bytes where
  "space = [CHR 0x20]"

text \<open>The capacity of \<^verbatim>\<open>c.send\<close>: \<^verbatim>\<open>make(chan []byte, 256)\<close> in \<^verbatim>\<open>serveWs\<close>.\<close>

definition sendCap :: nat where
  "sendCap = 256"

subsection \<open>Normalization of a payload (line 74)\<close>

text \<open>
  \<^verbatim>\<open>bytes.Replace(s, old, new, n)\<close> of the Go library: the first \<open>n\<close> non-overlapping
  instances of \<open>old\<close> are replaced, from the left; a negative \<open>n\<close> puts no limit. Only a
  non-empty \<open>old\<close> is defined here (the source passes the one-byte \<open>newline\<close>).
\<close>

function (sequential) Replace :: "bytes \<Rightarrow> bytes \<Rightarrow> bytes \<Rightarrow> int \<Rightarrow> bytes" where
  "Replace [] (c # cs) new n = []"
| "Replace (x # xs) (c # cs) new n =
     (if n \<noteq> 0 \<and> prefix (c # cs) (x # xs)
      then new @ Replace (drop (length (c # cs)) (x # xs)) (c # cs) new (n - 1)
      else x # Replace xs (c # cs) new n)"
  by pat_completeness auto
termination
  by (relation "measure (\<lambda>(s, old, new, n). length s)") auto

text \<open>
  \<^verbatim>\<open>bytes.TrimSpace\<close> of the Go library slices off all leading and trailing white space
  "as defined by Unicode", reading the bytes as UTF-8. The white-space code points and
  their UTF-8 encodings: U+0009 to U+000D, U+0020, U+0085, U+00A0, U+1680, U+2000 to
  U+200A, U+2028, U+2029, U+202F, U+205F, U+3000. A byte sequence that is not one of
  these encodings (an invalid sequence included) decodes to a rune that is not white
  space, so trimming stops there.
\<close>

definition spaceRunes :: "bytes list" where
  "spaceRunes =
     [[CHR 0x09], [CHR 0x0A], [CHR 0x0B], [CHR 0x0C], [CHR 0x0D], [CHR 0x20],
      [CHR 0xC2, CHR 0x85], [CHR 0xC2, CHR 0xA0],
      [CHR 0xE1, CHR 0x9A, CHR 0x80],
      [CHR 0xE2, CHR 0x80, CHR 0x80], [CHR 0xE2, CHR 0x80, CHR 0x81],
      [CHR 0xE2, CHR 0x80, CHR 0x82], [CHR 0xE2, CHR 0x80, CHR 0x83],
      [CHR 0xE2, CHR 0x80, CHR 0x84], [CHR 0xE2, CHR 0x80, CHR 0x85],
      [CHR 0xE2, CHR 0x80, CHR 0x86], [CHR 0xE2, CHR 0x80, CHR 0x87],
      [CHR 0xE2, CHR 0x80, CHR 0x88], [CHR 0xE2, CHR 0x80, CHR 0x89],
      [CHR 0xE2, CHR 0x80, CHR 0x8A],
      [CHR 0xE2, CHR 0x80, CHR 0xA8], [CHR 0xE2, CHR 0x80, CHR 0xA9],
      [CHR 0xE2, CHR 0x80, CHR 0xAF], [CHR 0xE2, CHR 0x81, CHR 0x9F],
      [CHR 0xE3, CHR 0x80, CHR 0x80]]"

text \<open>The white-space rune a byte sequence starts with, and the one it ends with.\<close>

definition leadingSpace :: "bytes \<Rightarrow> bytes option" where
  "leadingSpace s = find (\<lambda>e. prefix e s) spaceRunes"

definition trailingSpace :: "bytes \<Rightarrow> bytes option" where
  "trailingSpace s = find (\<lambda>e. suffix e s) spaceRunes"

function trimLeft :: "bytes \<Rightarrow> bytes" where
  "trimLeft s =
     (case leadingSpace s of None \<Rightarrow> s | Some e \<Rightarrow> trimLeft (drop (length e) s))"
  by pat_completeness auto
termination
proof (relation "measure length")
  fix s e assume "leadingSpace s = Some e"
  then have "e \<in> set spaceRunes" "prefix e s"
    unfolding leadingSpace_def by (metis find_Some_iff nth_mem)+
  then have "e \<noteq> []" "prefix e s"
    by (auto simp: spaceRunes_def)
  then show "(drop (length e) s, s) \<in> measure length"
    by (auto simp: prefix_def)
qed simp

declare trimLeft.simps [simp del]

function trimRight :: "bytes \<Rightarrow> bytes" where
  "trimRight s =
     (case trailingSpace s of None \<Rightarrow> s
      | Some e \<Rightarrow> trimRight (take (length s - length e) s))"
  by pat_completeness auto
termination
proof (relation "measure length")
  fix s e assume "trailingSpace s = Some e"
  then have "e \<in> set spaceRunes" "suffix e s"
    unfolding trailingSpace_def by (metis find_Some_iff nth_mem)+
  then have "e \<noteq> []" "suffix e s"
    by (auto simp: spaceRunes_def)
  then show "(take (length s - length e) s, s) \<in> measure length"
    by (auto simp: suffix_def)
qed simp

declare trimRight.simps [simp del]

definition TrimSpace :: "bytes \<Rightarrow> bytes" where
  "TrimSpace s = trimRight (trimLeft s)"

text \<open>
  Line 74: \<^verbatim>\<open>message = bytes.TrimSpace(bytes.Replace(message, newline, space, -1))\<close>.
\<close>

definition normalizeMessage :: "bytes \<Rightarrow> bytes" where
  "normalizeMessage message = TrimSpace (Replace message newline space (- 1))"

text \<open>A run of white space: a concatenation of encoded white-space runes.\<close>

inductive whitespace :: "bytes \<Rightarrow> bool" where
  ws_Nil: "whitespace []"
| ws_Cons: "e \<in> set spaceRunes \<Longrightarrow> whitespace s \<Longrightarrow> whitespace (e @ s)"

subsection \<open>Errors, frames and events\<close>

text \<open>
  The errors the connection can return. \<open>CloseError\<close> is \<^verbatim>\<open>*websocket.CloseError\<close>
  with its close code; the others are the read-limit error, a deadline that passed, the
  write after a close frame was sent, and any failure of the network under the
  connection.
\<close>

datatype err = CloseError int | ErrReadLimit | ErrTimeout | ErrCloseSent | ErrNet

definition CloseGoingAway :: int where
  "CloseGoingAway = 1001"

definition CloseAbnormalClosure :: int where
  "CloseAbnormalClosure = 1006"

text \<open>
  \<^verbatim>\<open>websocket.IsUnexpectedCloseError\<close>: the error is a close error and its code is not
  one of the expected codes.
\<close>

fun IsUnexpectedCloseError :: "err \<Rightarrow> int list \<Rightarrow> bool" where
  "IsUnexpectedCloseError (CloseError code) expected = (code \<notin> set expected)"
| "IsUnexpectedCloseError e expected = False"

datatype messageType = TextMessage | BinaryMessage | CloseMessage | PingMessage | PongMessage

text \<open>
  One event per call of a pump on its collaborators, with the arguments and, for an
  operation that can fail, the result it returned (\<open>None\<close> is \<^verbatim>\<open>nil\<close>).
\<close>

datatype event =
    E_SetReadLimit int
  | E_SetReadDeadline time
  | E_SetPongHandler
  | E_Printf err
  | E_Broadcast bytes
  | E_Unregister
  | E_ConnClose
  | E_NewTicker int
  | E_TickerStop
  | E_Recv "bytes option"
  | E_SetWriteDeadline time
  | E_WriteMessage messageType bytes "err option"
  | E_NextWriter messageType "err option"
  | E_Write bytes "err option"
  | E_WriterClose bytes "err option"

text \<open>
  How a run of a pump ends: it returned (and its deferred function ran), it is suspended
  waiting for the environment (which has nothing more to offer), or it is blocked in a
  receive on an empty open channel.
\<close>

datatype status = Exited | Suspended | Blocked

subsection \<open>The connection as the read pump sees it\<close>

text \<open>
  The read side of \<^verbatim>\<open>websocket.Conn\<close>: the read limit (0 is no limit), the read
  deadline (\<open>None\<close> is no deadline), whether the pump's pong handler is installed (the
  handler of a fresh connection does nothing), and the trace.
\<close>

record reader =
  readLimit :: int
  readDeadline :: "time option"
  pongSet :: bool
  rtrace :: "event list"

definition emitR :: "event \<Rightarrow> reader \<Rightarrow> reader" where
  "emitR e s = s\<lparr>rtrace := rtrace s @ [e]\<rparr>"

definition SetReadLimit :: "int \<Rightarrow> reader \<Rightarrow> reader" where
  "SetReadLimit n s = emitR (E_SetReadLimit n) (s\<lparr>readLimit := n\<rparr>)"

definition SetReadDeadline :: "time \<Rightarrow> reader \<Rightarrow> reader" where
  "SetReadDeadline t s = emitR (E_SetReadDeadline t) (s\<lparr>readDeadline := Some t\<rparr>)"

definition SetPongHandler :: "reader \<Rightarrow> reader" where
  "SetPongHandler s = emitR E_SetPongHandler (s\<lparr>pongSet := True\<rparr>)"

text \<open>
  Lines 62 to 65, the closure given to \<^verbatim>\<open>SetPongHandler\<close>; \<open>now\<close> is what
  \<^verbatim>\<open>time.Now()\<close> returns when the handler runs.
\<close>

definition pongHandler :: "time \<Rightarrow> bytes \<Rightarrow> reader \<Rightarrow> err option \<times> reader" where
  "pongHandler now appData s = (None, SetReadDeadline (now + pongWait) s)"

definition handlePong :: "time \<Rightarrow> bytes \<Rightarrow> reader \<Rightarrow> err option \<times> reader" where
  "handlePong now appData s = (if pongSet s then pongHandler now appData s else (None, s))"

text \<open>
  What reaches the connection from the peer, in order: a data message or a pong, each
  with the clock reading when it is read, or a failure of the transport (a close frame
  with its code, a reset connection).
\<close>

datatype inbound = Data time bytes | Pong time bytes | Fail err

datatype read_result = Payload bytes | ReadErr err | WouldBlock

definition expired :: "reader \<Rightarrow> time \<Rightarrow> bool" where
  "expired s at = (case readDeadline s of None \<Rightarrow> False | Some d \<Rightarrow> d < at)"

text \<open>
  \<^verbatim>\<open>c.conn.ReadMessage()\<close>, as the library documents it: control frames are handled
  inside the call (a pong runs the pong handler, whose error becomes the read's error);
  a message longer than a positive read limit gives \<^verbatim>\<open>ErrReadLimit\<close>; nothing
  arriving before the read deadline gives a timeout; with no deadline and nothing to
  read the call does not return.
\<close>

fun ReadMessage :: "reader \<Rightarrow> inbound list \<Rightarrow> read_result \<times> reader \<times> inbound list" where
  "ReadMessage s [] =
     (case readDeadline s of None \<Rightarrow> (WouldBlock, s, [])
      | Some d \<Rightarrow> (ReadErr ErrTimeout, s, []))"
| "ReadMessage s (Fail e # rest) = (ReadErr e, s, rest)"
| "ReadMessage s (Data at p # rest) =
     (if expired s at then (ReadErr ErrTimeout, s, rest)
      else if 0 < readLimit s \<and> readLimit s < int (length p)
        then (ReadErr ErrReadLimit, s, rest)
      else (Payload p, s, rest))"
| "ReadMessage s (Pong at d # rest) =
     (if expired s at then (ReadErr ErrTimeout, s, rest)
      else case handlePong at d s of
          (Some e, s') \<Rightarrow> (ReadErr e, s', rest)
        | (None, s') \<Rightarrow> ReadMessage s' rest)"

subsection \<open>The read pump (lines 54 to 77)\<close>

text \<open>
  The loop of lines 66 to 76. The result says whether the loop was left by
  \<^verbatim>\<open>break\<close> (\<open>True\<close>) or is still waiting inside \<^verbatim>\<open>ReadMessage\<close>. Sending on the
  hub's channels is an event; the hub is assumed to receive.
\<close>

function readLoop :: "reader \<Rightarrow> inbound list \<Rightarrow> bool \<times> reader" where
  "readLoop s inp =
     (case ReadMessage s inp of
        (WouldBlock, s', rest) \<Rightarrow> (False, s')
      | (ReadErr e, s', rest) \<Rightarrow>
          (True,
           if IsUnexpectedCloseError e [CloseGoingAway, CloseAbnormalClosure]
           then emitR (E_Printf e) s' else s')
      | (Payload message, s', rest) \<Rightarrow>
          readLoop (emitR (E_Broadcast (normalizeMessage message)) s') rest)"
  by pat_completeness auto
termination
proof (relation "measure (\<lambda>(s, inp). length inp)")
  have shorter: "length rest < length inp"
    if "ReadMessage s inp = (Payload m, s', rest)" for s inp m s' rest
    using that
    by (induction s inp rule: ReadMessage.induct)
      (auto split: option.splits if_splits prod.splits)
  fix s inp x y m s' rest
  assume "(x, y) = ReadMessage s inp" "x = Payload m" "(s', rest) = y"
  then have "ReadMessage s inp = (Payload m, s', rest)" by simp
  from shorter [OF this]
  show "((emitR (E_Broadcast (normalizeMessage m)) s', rest), (s, inp))
      \<in> measure (\<lambda>(s, inp). length inp)"
    by simp
qed simp

declare readLoop.simps [simp del]

text \<open>The deferred function of lines 55 to 58.\<close>

definition readPump_deferred :: "reader \<Rightarrow> reader" where
  "readPump_deferred s = emitR E_ConnClose (emitR E_Unregister s)"

text \<open>\<open>now\<close> is the clock reading of line 60.\<close>

definition readPump :: "time \<Rightarrow> reader \<Rightarrow> inbound list \<Rightarrow> status \<times> reader" where
  "readPump now s inp =
     (let s1 = SetReadLimit maxMessageSize s;
          s2 = SetReadDeadline (now + pongWait) s1;
          s3 = SetPongHandler s2
      in case readLoop s3 inp of
           (True, s4) \<Rightarrow> (Exited, readPump_deferred s4)
         | (False, s4) \<Rightarrow> (Suspended, s4))"

text \<open>A fresh connection: no limit, no deadline, the default pong handler.\<close>

definition newReader :: reader where
  "newReader = \<lparr>readLimit = 0, readDeadline = None, pongSet = False, rtrace = []\<rparr>"

subsection \<open>The channel \<^verbatim>\<open>c.send\<close>\<close>

text \<open>
  A buffered Go channel: the messages waiting in it, oldest first, and whether it was
  closed. \<^verbatim>\<open>len(c.send)\<close> is the length of \<open>buf\<close>.
\<close>

record chan =
  buf :: "bytes list"
  closed :: bool

text \<open>
  What the other goroutines do to \<^verbatim>\<open>c.send\<close> while the write pump runs: a send, which
  puts a message at the end when the channel is open and not full (on a full channel a
  sender waits or gives up, on a closed one it panics: the buffer stays as it is), and a
  close, which leaves the buffered messages in place. The write pump is the only
  receiver.
\<close>

datatype hub_action = Send bytes | CloseChan

fun hub_step :: "hub_action \<Rightarrow> chan \<Rightarrow> chan" where
  "hub_step (Send m) ch =
     (if closed ch \<or> sendCap \<le> length (buf ch) then ch else ch\<lparr>buf := buf ch @ [m]\<rparr>)"
| "hub_step CloseChan ch = ch\<lparr>closed := True\<rparr>"

fun sentBy :: "hub_action list \<Rightarrow> bytes list" where
  "sentBy [] = []"
| "sentBy (Send m # as) = m # sentBy as"
| "sentBy (CloseChan # as) = sentBy as"

subsection \<open>The connection as the write pump sees it\<close>

text \<open>
  The state of the write pump: the channel; the environment still to come, which is
  \<open>interf\<close>, one batch of actions of the other goroutines for each later access of the
  pump to the channel (they happen just before that access), and \<open>faults\<close>, what the
  network answers to each later write operation (\<open>None\<close>: it succeeds; both are
  exhausted quietly: no more actions, no more faults); the message writer \<^verbatim>\<open>w\<close>, that
  is the error it remembers and the payload written into it; and the trace.
\<close>

record writer =
  send :: chan
  interf :: "hub_action list list"
  faults :: "err option list"
  werr :: "err option"
  wbuf :: bytes
  wtrace :: "event list"

definition emitW :: "event \<Rightarrow> writer \<Rightarrow> writer" where
  "emitW e s = s\<lparr>wtrace := wtrace s @ [e]\<rparr>"

definition interfere :: "writer \<Rightarrow> writer" where
  "interfere s =
     (case interf s of [] \<Rightarrow> s
      | b # bs \<Rightarrow> s\<lparr>send := fold hub_step b (send s), interf := bs\<rparr>)"

definition nextFault :: "writer \<Rightarrow> err option \<times> writer" where
  "nextFault s = (case faults s of [] \<Rightarrow> (None, s) | f # fs \<Rightarrow> (f, s\<lparr>faults := fs\<rparr>))"

text \<open>
  A receive from the channel: the oldest message; the zero value at once when the channel
  is closed and drained (\<open>ok\<close> is false); on an empty open channel the receive waits.
\<close>

datatype received = Got bytes | Drained | Empty

definition chanRecv :: "writer \<Rightarrow> received \<times> writer" where
  "chanRecv s =
     (let s1 = interfere s in
      case buf (send s1) of
        m # ms \<Rightarrow> (Got m, emitW (E_Recv (Some m)) (s1\<lparr>send := (send s1)\<lparr>buf := ms\<rparr>\<rparr>))
      | [] \<Rightarrow> if closed (send s1) then (Drained, emitW (E_Recv None) s1) else (Empty, s1))"

definition chanLen :: "writer \<Rightarrow> nat \<times> writer" where
  "chanLen s = (let s1 = interfere s in (length (buf (send s1)), s1))"

definition SetWriteDeadline :: "time \<Rightarrow> writer \<Rightarrow> writer" where
  "SetWriteDeadline t s = emitW (E_SetWriteDeadline t) s"

text \<open>
  The write operations of the library. \<^verbatim>\<open>WriteMessage\<close> and \<^verbatim>\<open>NextWriter\<close> return the
  error the network gives, if any. The message writer remembers the first error of a
  \<^verbatim>\<open>Write\<close>: later calls of \<^verbatim>\<open>Write\<close> and \<^verbatim>\<open>Close\<close> on it return that error and
  do no more input or output. The source drops the result of every \<^verbatim>\<open>w.Write\<close>; the
  event keeps it.
\<close>

definition WriteMessage :: "messageType \<Rightarrow> bytes \<Rightarrow> writer \<Rightarrow> err option \<times> writer" where
  "WriteMessage ty p s =
     (case nextFault s of (f, s1) \<Rightarrow> (f, emitW (E_WriteMessage ty p f) s1))"

definition NextWriter :: "messageType \<Rightarrow> writer \<Rightarrow> err option \<times> writer" where
  "NextWriter ty s =
     (case nextFault s of
        (f, s1) \<Rightarrow> (f, emitW (E_NextWriter ty f) (s1\<lparr>werr := None, wbuf := []\<rparr>)))"

definition Write :: "bytes \<Rightarrow> writer \<Rightarrow> writer" where
  "Write p s =
     (case werr s of
        Some e \<Rightarrow> emitW (E_Write p (Some e)) s
      | None \<Rightarrow>
          (case nextFault s of
             (None, s1) \<Rightarrow> emitW (E_Write p None) (s1\<lparr>wbuf := wbuf s1 @ p\<rparr>)
           | (Some e, s1) \<Rightarrow> emitW (E_Write p (Some e)) (s1\<lparr>werr := Some e\<rparr>)))"

definition WriterClose :: "writer \<Rightarrow> err option \<times> writer" where
  "WriterClose s =
     (case werr s of
        Some e \<Rightarrow> (Some e, emitW (E_WriterClose (wbuf s) (Some e)) s)
      | None \<Rightarrow>
          (case nextFault s of (f, s1) \<Rightarrow> (f, emitW (E_WriterClose (wbuf s1) f) s1)))"

subsection \<open>The write pump (lines 84 to 123)\<close>

text \<open>
  Lines 108 to 111, the loop \<^verbatim>\<open>for i := 0; i < n; i++\<close>: \<open>n\<close> is fixed before the
  loop. The result is false when a receive found the channel empty and open.
\<close>

fun drain :: "nat \<Rightarrow> writer \<Rightarrow> bool \<times> writer" where
  "drain 0 s = (True, s)"
| "drain (Suc k) s =
     (case chanRecv (Write newline s) of
        (Got m, s1) \<Rightarrow> drain k (Write m s1)
      | (Drained, s1) \<Rightarrow> drain k (Write [] s1)
      | (Empty, s1) \<Rightarrow> (False, s1))"

datatype outcome = Continue | Return | Stuck

text \<open>Lines 100 to 115: the branch of a received message.\<close>

definition messageBranch :: "bytes \<Rightarrow> writer \<Rightarrow> outcome \<times> writer" where
  "messageBranch message s =
     (case NextWriter TextMessage s of
        (Some e, s1) \<Rightarrow> (Return, s1)
      | (None, s1) \<Rightarrow>
          (case chanLen (Write message s1) of
             (n, s2) \<Rightarrow>
               (case drain n s2 of
                  (False, s3) \<Rightarrow> (Stuck, s3)
                | (True, s3) \<Rightarrow>
                    (case WriterClose s3 of
                       (Some e, s4) \<Rightarrow> (Return, s4)
                     | (None, s4) \<Rightarrow> (Continue, s4)))))"

text \<open>
  One turn of the \<^verbatim>\<open>select\<close> of line 91: the case the scheduler takes and the clock
  reading of that turn. The channel case is taken only when a receive can proceed;
  otherwise the pump stays in the \<^verbatim>\<open>select\<close> until the next turn.
\<close>

datatype ready = OnSend | OnTick

record turn =
  ready :: ready
  clock :: time

definition iteration :: "turn \<Rightarrow> writer \<Rightarrow> outcome \<times> writer" where
  "iteration t s =
     (case ready t of
        OnSend \<Rightarrow>
          (case chanRecv s of
             (Empty, s1) \<Rightarrow> (Continue, s1)
           | (Drained, s1) \<Rightarrow>
               (Return,
                snd (WriteMessage CloseMessage [] (SetWriteDeadline (clock t + writeWait) s1)))
           | (Got message, s1) \<Rightarrow>
               messageBranch message (SetWriteDeadline (clock t + writeWait) s1))
      | OnTick \<Rightarrow>
          (case WriteMessage PingMessage [] (SetWriteDeadline (clock t + writeWait) s) of
             (Some e, s1) \<Rightarrow> (Return, s1)
           | (None, s1) \<Rightarrow> (Continue, s1)))"

fun writeLoop :: "turn list \<Rightarrow> writer \<Rightarrow> status \<times> writer" where
  "writeLoop [] s = (Suspended, s)"
| "writeLoop (t # ts) s =
     (case iteration t s of
        (Continue, s1) \<Rightarrow> writeLoop ts s1
      | (Return, s1) \<Rightarrow> (Exited, s1)
      | (Stuck, s1) \<Rightarrow> (Blocked, s1))"

text \<open>The deferred function of lines 86 to 89.\<close>

definition writePump_deferred :: "writer \<Rightarrow> writer" where
  "writePump_deferred s = emitW E_ConnClose (emitW E_TickerStop s)"

definition writePump :: "turn list \<Rightarrow> writer \<Rightarrow> status \<times> writer" where
  "writePump ts s =
     (case writeLoop ts (emitW (E_NewTicker pingPeriod) s) of
        (Exited, s1) \<Rightarrow> (Exited, writePump_deferred s1)
      | (Suspended, s1) \<Rightarrow> (Suspended, s1)
      | (Blocked, s1) \<Rightarrow> (Blocked, s1))"

text \<open>A write pump that starts on channel \<open>ch\<close> in the environment \<open>hub\<close>, \<open>fl\<close>.\<close>

definition newWriter :: "chan \<Rightarrow> hub_action list list \<Rightarrow> err option list \<Rightarrow> writer" where
  "newWriter ch hub fl =
     \<lparr>send = ch, interf = hub, faults = fl, werr = None, wbuf = [], wtrace = []\<rparr>"

subsection \<open>Reading a trace\<close>

text \<open>
  The messages received from the channel, the arguments of the calls of \<^verbatim>\<open>w.Write\<close>,
  and the messages the transport took (a successful \<^verbatim>\<open>WriteMessage\<close>, or a message
  writer closed with success: one text message with all that was written into it).
\<close>

fun receivedOf :: "event list \<Rightarrow> bytes list" where
  "receivedOf [] = []"
| "receivedOf (E_Recv (Some m) # es) = m # receivedOf es"
| "receivedOf (e # es) = receivedOf es"

fun writtenOf :: "event list \<Rightarrow> bytes list" where
  "writtenOf [] = []"
| "writtenOf (E_Write p r # es) = p # writtenOf es"
| "writtenOf (e # es) = writtenOf es"


text \<open>
  A write operation that returned an error; the ones whose error the source tests; a
  receive from the channel or a write operation of any kind.
\<close>

fun failedWrite :: "event \<Rightarrow> bool" where
  "failedWrite (E_WriteMessage ty p (Some e)) = True"
| "failedWrite (E_NextWriter ty (Some e)) = True"
| "failedWrite (E_Write p (Some e)) = True"
| "failedWrite (E_WriterClose p (Some e)) = True"
| "failedWrite e = False"

fun testedFailure :: "event \<Rightarrow> bool" where
  "testedFailure (E_WriteMessage ty p (Some e)) = True"
| "testedFailure (E_NextWriter ty (Some e)) = True"
| "testedFailure (E_WriterClose p (Some e)) = True"
| "testedFailure e = False"

fun recvOrWrite :: "event \<Rightarrow> bool" where
  "recvOrWrite (E_Recv m) = True"
| "recvOrWrite (E_WriteMessage ty p r) = True"
| "recvOrWrite (E_NextWriter ty r) = True"
| "recvOrWrite (E_Write p r) = True"
| "recvOrWrite (E_WriterClose p r) = True"
| "recvOrWrite e = False"

text \<open>No receive and no write follows the first event that satisfies \<open>P\<close>.\<close>

fun stopsAt :: "(event \<Rightarrow> bool) \<Rightarrow> event list \<Rightarrow> bool" where
  "stopsAt P [] = True"
| "stopsAt P (e # es) = (if P e then list_all (\<lambda>x. \<not> recvOrWrite x) es else stopsAt P es)"

subsection \<open>Auxiliary notions for the read pump\<close>

text \<open>The connection as line 66 finds it, after lines 59 to 65.\<close>

definition readPump_init :: "time \<Rightarrow> reader \<Rightarrow> reader" where
  "readPump_init now s =
     s\<lparr>readLimit := 512, readDeadline := Some (now + pongWait), pongSet := True,
       rtrace := rtrace s @ [E_SetReadLimit 512, E_SetReadDeadline (now + pongWait), E_SetPongHandler]\<rparr>"

text \<open>
  The events the loop of the read pump can add to the trace on input \<open>inp\<close> under the
  read limit \<open>L\<close>: the broadcast of a normalized payload that respects the limit, the
  deadline set at a pong, the report of an unexpected close error.
\<close>

definition loopEvent :: "int \<Rightarrow> inbound list \<Rightarrow> event \<Rightarrow> bool" where
  "loopEvent L inp e \<longleftrightarrow>
     (\<exists>at p. Data at p \<in> set inp \<and> \<not> (0 < L \<and> L < int (length p))
        \<and> e = E_Broadcast (normalizeMessage p))
     \<or> (\<exists>at d. Pong at d \<in> set inp \<and> e = E_SetReadDeadline (at + pongWait))
     \<or> (\<exists>err. Fail err \<in> set inp \<and> e = E_Printf err
        \<and> IsUnexpectedCloseError err [CloseGoingAway, CloseAbnormalClosure])"

text \<open>The payload of the scenario: two spaces, hello, a line feed, world, two spaces, a line feed.\<close>

definition helloPayload :: bytes where
  "helloPayload = ''  hello'' @ [CHR 0x0A] @ ''world  '' @ [CHR 0x0A]"

text \<open>
  The messages a trace submits to the broadcast intake, in order; and the payloads that
  the successive calls of \<^verbatim>\<open>ReadMessage\<close> return on an input, up to the first call
  that returns an error.
\<close>

fun broadcastsOf :: "event list \<Rightarrow> bytes list" where
  "broadcastsOf [] = []"
| "broadcastsOf (E_Broadcast m # es) = m # broadcastsOf es"
| "broadcastsOf (e # es) = broadcastsOf es"

function payloadsRead :: "reader \<Rightarrow> inbound list \<Rightarrow> bytes list" where
  "payloadsRead s inp =
     (case ReadMessage s inp of
        (Payload p, s', rest) \<Rightarrow> p # payloadsRead s' rest
      | (ReadErr e, s', rest) \<Rightarrow> []
      | (WouldBlock, s', rest) \<Rightarrow> [])"
  by pat_completeness auto
termination
proof (relation "measure (\<lambda>(s, inp). length inp)")
  have shorter: "length rest < length inp"
    if "ReadMessage s inp = (Payload m, s', rest)" for s inp m s' rest
    using that
    by (induction s inp rule: ReadMessage.induct)
      (auto split: option.splits if_splits prod.splits)
  fix s inp x y m s' rest
  assume "(x, y) = ReadMessage s inp" "x = Payload m" "(s', rest) = y"
  then have "ReadMessage s inp = (Payload m, s', rest)" by simp
  from shorter [OF this]
  show "((s', rest), (s, inp)) \<in> measure (\<lambda>(s, inp). length inp)"
    by simp
qed simp

declare payloadsRead.simps [simp del]

text \<open>Two connection states with the same read limit, read deadline and pong handler.\<close>

definition sameConn :: "reader \<Rightarrow> reader \<Rightarrow> bool" where
  "sameConn s t \<longleftrightarrow>
     readLimit s = readLimit t \<and> readDeadline s = readDeadline t \<and> pongSet s = pongSet t"

text \<open>
  Payloads: \<open>a\<close>, a carriage return, a line feed, \<open>b\<close>; and an input of two payloads.
\<close>

definition crlfPayload :: bytes where
  "crlfPayload = ''a'' @ [CHR 0x0D, CHR 0x0A] @ ''b''"

definition twoPayloads :: "inbound list" where
  "twoPayloads = [Data 1 helloPayload, Data 2 ''  second '']"

subsection \<open>Auxiliary notions for the write pump\<close>

text \<open>
  What the environment holds next: the answer of the network to the next write
  operation, and the actions of the other goroutines before the next access to the
  channel. \<open>writeResult\<close> is what a \<^verbatim>\<open>Write\<close> or a \<^verbatim>\<open>Close\<close> of the message writer
  returns in a state.
\<close>

definition headFault :: "writer \<Rightarrow> err option" where
  "headFault s = (case faults s of [] \<Rightarrow> None | f # fs \<Rightarrow> f)"

definition headBatch :: "writer \<Rightarrow> hub_action list" where
  "headBatch s = (case interf s of [] \<Rightarrow> [] | b # bs \<Rightarrow> b)"

definition writeResult :: "writer \<Rightarrow> err option" where
  "writeResult s = (case werr s of Some e \<Rightarrow> Some e | None \<Rightarrow> headFault s)"

text \<open>The events of the loop of lines 108 to 111: calls of \<^verbatim>\<open>w.Write\<close> and receives.\<close>

fun drainEvent :: "event \<Rightarrow> bool" where
  "drainEvent (E_Write p r) = True"
| "drainEvent (E_Recv m) = True"
| "drainEvent e = False"

text \<open>
  The states of the message branch when \<^verbatim>\<open>NextWriter\<close> succeeds: after line 100, and
  at the instant line 107 reads \<^verbatim>\<open>len(c.send)\<close>.
\<close>

definition afterNextWriter :: "writer \<Rightarrow> writer" where
  "afterNextWriter s =
     emitW (E_NextWriter TextMessage None) (s\<lparr>faults := tl (faults s), werr := None, wbuf := []\<rparr>)"

definition atSnapshot :: "bytes \<Rightarrow> writer \<Rightarrow> writer" where
  "atSnapshot message s = interfere (Write message (afterNextWriter s))"


text \<open>
  Scenarios. In \<open>stalledWriter\<close> three messages of 512 bytes, the largest the read
  pumps pass on, wait in the channel, and the network fails at the fourth write
  operation, the \<^verbatim>\<open>w.Write\<close> of the second message (with it the writer has more than
  its buffer of 1024 bytes holds, so this is the call that reaches the network). In
  \<open>racingWriter\<close> the first message has been received and \<open>m2\<close> waits; the hub sends
  \<open>m3\<close> before line 107 reads the length, \<open>m4\<close> before the first receive of the loop,
  and closes the channel before the second. In \<open>evictedWriter\<close> the hub has closed the
  channel while one message was still waiting in it.
\<close>

definition stalledTurns :: "turn list" where
  "stalledTurns = [\<lparr>ready = OnSend, clock = 0\<rparr>]"

definition msgA :: bytes where
  "msgA = replicate 512 (CHR ''a'')"

definition msgB :: bytes where
  "msgB = replicate 512 (CHR ''b'')"

definition msgC :: bytes where
  "msgC = replicate 512 (CHR ''c'')"

definition stalledWriter :: writer where
  "stalledWriter =
     newWriter \<lparr>buf = [msgA, msgB, msgC], closed = False\<rparr> [] [None, None, None, Some ErrNet]"

definition racingWriter :: writer where
  "racingWriter =
     newWriter \<lparr>buf = [''m2''], closed = False\<rparr>
       [[Send ''m3''], [Send ''m4''], [CloseChan]] []"

definition evictedWriter :: writer where
  "evictedWriter = newWriter \<lparr>buf = [''bye''], closed = True\<rparr> [] []"







section \<open>Normalization\<close>

lemma leadingSpace_Some:
  "leadingSpace s = Some e \<Longrightarrow> e \<in> set spaceRunes \<and> prefix e s"
  unfolding leadingSpace_def by (metis find_Some_iff nth_mem)

lemma trailingSpace_Some:
  "trailingSpace s = Some e \<Longrightarrow> e \<in> set spaceRunes \<and> suffix e s"
  unfolding trailingSpace_def by (metis find_Some_iff nth_mem)

lemma leadingSpace_None:
  "leadingSpace s = None \<longleftrightarrow> (\<forall>e \<in> set spaceRunes. \<not> prefix e s)"
  unfolding leadingSpace_def by (auto simp: find_None_iff)

lemma whitespace_append: "whitespace a \<Longrightarrow> whitespace b \<Longrightarrow> whitespace (a @ b)"
proof (induction rule: whitespace.induct)
  case ws_Nil
  then show ?case by simp
next
  case (ws_Cons e s)
  then have "whitespace (s @ b)" by simp
  with ws_Cons(1) have "whitespace (e @ (s @ b))" by (rule whitespace.ws_Cons)
  then show ?case by simp
qed

lemma whitespace_single: "e \<in> set spaceRunes \<Longrightarrow> whitespace e"
  using ws_Cons [OF _ ws_Nil] by force

lemma trimLeft_split: "\<exists>pre. s = pre @ trimLeft s \<and> whitespace pre"
proof (induction s rule: trimLeft.induct)
  case (1 s)
  show ?case
  proof (cases "leadingSpace s")
    case None
    then show ?thesis using ws_Nil by (subst trimLeft.simps) auto
  next
    case (Some e)
    from leadingSpace_Some [OF Some] have e: "e \<in> set spaceRunes" "prefix e s" by auto
    then have s: "s = e @ drop (length e) s" by (auto simp: prefix_def)
    from 1 [OF Some] obtain pre where
      pre: "drop (length e) s = pre @ trimLeft (drop (length e) s)" "whitespace pre" by blast
    have t: "trimLeft s = trimLeft (drop (length e) s)"
      by (subst trimLeft.simps) (simp add: Some)
    have "s = (e @ pre) @ trimLeft s" using s pre(1) t by (metis append_assoc)
    moreover have "whitespace (e @ pre)" using e(1) pre(2) by (rule ws_Cons)
    ultimately show ?thesis by blast
  qed
qed

lemma trimRight_split: "\<exists>suf. s = trimRight s @ suf \<and> whitespace suf"
proof (induction s rule: trimRight.induct)
  case (1 s)
  show ?case
  proof (cases "trailingSpace s")
    case None
    then show ?thesis using ws_Nil by (subst trimRight.simps) auto
  next
    case (Some e)
    from trailingSpace_Some [OF Some] have e: "e \<in> set spaceRunes" "suffix e s" by auto
    then have s: "s = take (length s - length e) s @ e" by (auto simp: suffix_def)
    from 1 [OF Some] obtain suf where
      suf: "take (length s - length e) s = trimRight (take (length s - length e) s) @ suf"
        "whitespace suf" by blast
    have t: "trimRight s = trimRight (take (length s - length e) s)"
      by (subst trimRight.simps) (simp add: Some)
    have "s = trimRight s @ (suf @ e)" using s suf(1) t by (metis append_assoc)
    moreover have "whitespace (suf @ e)"
      using suf(2) whitespace_single [OF e(1)] by (rule whitespace_append)
    ultimately show ?thesis by blast
  qed
qed

lemma trimLeft_no_leading: "leadingSpace (trimLeft s) = None"
proof (induction s rule: trimLeft.induct)
  case (1 s)
  show ?case
  proof (cases "leadingSpace s")
    case None
    then show ?thesis by (subst trimLeft.simps) simp
  next
    case (Some e)
    have "trimLeft s = trimLeft (drop (length e) s)"
      by (subst trimLeft.simps) (simp add: Some)
    with 1 [OF Some] show ?thesis by simp
  qed
qed

lemma trimRight_no_trailing: "trailingSpace (trimRight s) = None"
proof (induction s rule: trimRight.induct)
  case (1 s)
  show ?case
  proof (cases "trailingSpace s")
    case None
    then show ?thesis by (subst trimRight.simps) simp
  next
    case (Some e)
    have "trimRight s = trimRight (take (length s - length e) s)"
      by (subst trimRight.simps) (simp add: Some)
    with 1 [OF Some] show ?thesis by simp
  qed
qed

lemma trimRight_prefix: "prefix (trimRight s) s"
  using trimRight_split [of s] by (metis prefixI)

lemma trimRight_keeps_no_leading:
  assumes "leadingSpace s = None" shows "leadingSpace (trimRight s) = None"
  using assms trimRight_prefix [of s] unfolding leadingSpace_None
  by (meson prefix_order.trans)

lemma trimLeft_id: "leadingSpace s = None \<Longrightarrow> trimLeft s = s"
  by (subst trimLeft.simps) simp

lemma trimRight_id: "trailingSpace s = None \<Longrightarrow> trimRight s = s"
  by (subst trimRight.simps) simp

lemma TrimSpace_trimmed:
  "leadingSpace (TrimSpace s) = None \<and> trailingSpace (TrimSpace s) = None"
  unfolding TrimSpace_def
  by (simp add: trimRight_no_trailing trimRight_keeps_no_leading trimLeft_no_leading)

lemma TrimSpace_split:
  "\<exists>pre suf. s = pre @ TrimSpace s @ suf \<and> whitespace pre \<and> whitespace suf"
proof -
  obtain pre where pre: "s = pre @ trimLeft s" "whitespace pre"
    using trimLeft_split by blast
  obtain suf where suf: "trimLeft s = trimRight (trimLeft s) @ suf" "whitespace suf"
    using trimRight_split by blast
  have "s = pre @ TrimSpace s @ suf"
    unfolding TrimSpace_def using pre(1) suf(1) by simp
  with pre(2) suf(2) show ?thesis by blast
qed

lemma Replace_newline_step:
  "n < 0 \<Longrightarrow> Replace (x # xs) newline space n =
     (if x = CHR 0x0A then CHR 0x20 else x) # Replace xs newline space (if x = CHR 0x0A then n - 1 else n)"
  by (simp add: newline_def space_def)

lemma Replace_newline:
  "n < 0 \<Longrightarrow> Replace s newline space n = map (\<lambda>b. if b = CHR 0x0A then CHR 0x20 else b) s"
proof (induction s arbitrary: n)
  case Nil
  then show ?case by (simp add: newline_def)
next
  case (Cons x xs)
  have "Replace xs newline space (if x = CHR 0x0A then n - 1 else n)
      = map (\<lambda>b. if b = CHR 0x0A then CHR 0x20 else b) xs"
    using Cons.prems by (intro Cons.IH) simp
  then show ?case using Cons.prems by (simp only: Replace_newline_step list.map)
qed


lemma normalizeMessage_eq:
  "normalizeMessage m = TrimSpace (map (\<lambda>b. if b = CHR 0x0A then CHR 0x20 else b) m)"
  unfolding normalizeMessage_def by (simp only: Replace_newline)



text \<open>
  C2. Normalization leaves an already normalized message as it is: a byte sequence with
  no line feed that neither starts nor ends with a white-space rune is returned
  unchanged.
\<close>

theorem normalizeMessage_fixpoint:
  assumes "CHR 0x0A \<notin> set m" and "leadingSpace m = None" and "trailingSpace m = None"
  shows "normalizeMessage m = m"
proof -
  have "map (\<lambda>b. if b = CHR 0x0A then CHR 0x20 else b) m = m"
    using assms(1) by (induction m) auto
  then show ?thesis
    unfolding normalizeMessage_eq TrimSpace_def
    using assms(2,3) by (simp add: trimLeft_id trimRight_id)
qed

lemma TrimSpace_subset: "set (TrimSpace s) \<subseteq> set s"
proof -
  obtain pre suf where eq: "s = pre @ TrimSpace s @ suf"
    using TrimSpace_split by blast
  have "set (TrimSpace s) \<subseteq> set (pre @ TrimSpace s @ suf)" by auto
  then show ?thesis by (simp only: eq [symmetric])
qed

lemma normalize_no_newline: "CHR 0x0A \<notin> set (normalizeMessage m)"
proof -
  let ?r = "map (\<lambda>b. if b = CHR 0x0A then CHR 0x20 else b) m"
  have "CHR 0x0A \<notin> set ?r" by (induction m) simp_all
  with TrimSpace_subset [of ?r] show ?thesis
    unfolding normalizeMessage_eq by blast
qed

theorem normalizeMessage_fixpoint_witness:
  "CHR 0x0A \<notin> set ''hello world'' \<and> leadingSpace ''hello world'' = None
   \<and> trailingSpace ''hello world'' = None \<and> normalizeMessage ''hello world'' = ''hello world''"
proof -
  have a: "CHR 0x0A \<notin> set ''hello world''" by simp
  have b: "leadingSpace ''hello world'' = None" by code_simp
  have c: "trailingSpace ''hello world'' = None" by code_simp
  from a b c normalizeMessage_fixpoint [OF a b c] show ?thesis by blast
qed

section \<open>The read pump\<close>

lemma emitR_fields [simp]:
  "readLimit (emitR e s) = readLimit s"
  "readDeadline (emitR e s) = readDeadline s"
  "pongSet (emitR e s) = pongSet s"
  "rtrace (emitR e s) = rtrace s @ [e]"
  by (simp_all add: emitR_def)

lemma expired_emitR [simp]: "expired (emitR e s) at = expired s at"
  by (simp add: expired_def)

lemma handlePong_result:
  "handlePong at d s =
     (None, if pongSet s then SetReadDeadline (at + pongWait) s else s)"
  by (simp add: handlePong_def pongHandler_def)

lemma SetReadDeadline_fields [simp]:
  "readLimit (SetReadDeadline t s) = readLimit s"
  "readDeadline (SetReadDeadline t s) = Some t"
  "pongSet (SetReadDeadline t s) = pongSet s"
  "rtrace (SetReadDeadline t s) = rtrace s @ [E_SetReadDeadline t]"
  by (simp_all add: SetReadDeadline_def)

lemma readLoop_Nil:
  "readLoop s [] = (case readDeadline s of None \<Rightarrow> (False, s) | Some d \<Rightarrow> (True, s))"
  by (subst readLoop.simps) (simp split: option.splits)

lemma readLoop_Fail:
  "readLoop s (Fail e # rest) =
     (True, if IsUnexpectedCloseError e [CloseGoingAway, CloseAbnormalClosure]
            then emitR (E_Printf e) s else s)"
  by (subst readLoop.simps) simp

lemma readLoop_Data:
  "readLoop s (Data at p # rest) =
     (if expired s at \<or> (0 < readLimit s \<and> readLimit s < int (length p)) then (True, s)
      else readLoop (emitR (E_Broadcast (normalizeMessage p)) s) rest)"
  by (subst readLoop.simps) auto

lemma readLoop_Pong:
  "readLoop s (Pong at d # rest) =
     (if expired s at then (True, s)
      else readLoop (if pongSet s then SetReadDeadline (at + pongWait) s else s) rest)"
  by (simp add: readLoop.simps [of s "Pong at d # rest"] readLoop.simps [of _ rest]
      handlePong_result)

lemma loopEvent_Cons: "loopEvent L inp e \<Longrightarrow> loopEvent L (x # inp) e"
  unfolding loopEvent_def by auto

lemma loopEvent_all_Cons:
  "list_all (loopEvent L inp) body \<Longrightarrow> list_all (loopEvent L (x # inp)) body"
  by (induction body) (auto intro: loopEvent_Cons)

lemma readLoop_body:
  "\<exists>b s' body. readLoop s inp = (b, s') \<and> rtrace s' = rtrace s @ body
     \<and> list_all (loopEvent (readLimit s) inp) body
     \<and> (readDeadline s \<noteq> None \<longrightarrow> b) \<and> readLimit s' = readLimit s"
proof (induction inp arbitrary: s)
  case Nil
  have "readLoop s [] = (readDeadline s \<noteq> None, s)"
    by (cases "readDeadline s") (simp_all add: readLoop_Nil)
  moreover have "rtrace s = rtrace s @ []" "list_all (loopEvent (readLimit s) []) []"
    by simp_all
  ultimately show ?case by blast
next
  case (Cons x inp)
  show ?case
  proof (cases x)
    case (Fail e)
    have "loopEvent (readLimit s) (Fail e # inp) (E_Printf e)"
      if "IsUnexpectedCloseError e [CloseGoingAway, CloseAbnormalClosure]"
      using that unfolding loopEvent_def by auto
    then show ?thesis unfolding Fail readLoop_Fail by auto
  next
    case (Data at p)
    let ?s1 = "emitR (E_Broadcast (normalizeMessage p)) s"
    show ?thesis
    proof (cases "expired s at \<or> (0 < readLimit s \<and> readLimit s < int (length p))")
      case True
      then show ?thesis unfolding Data readLoop_Data by auto
    next
      case False
      from Cons.IH [of ?s1] obtain b s' body where l:
        "readLoop ?s1 inp = (b, s')" "rtrace s' = rtrace ?s1 @ body"
        "list_all (loopEvent (readLimit ?s1) inp) body" "readDeadline ?s1 \<noteq> None \<longrightarrow> b"
        "readLimit s' = readLimit ?s1"
        by blast
      have e: "loopEvent (readLimit s) (Data at p # inp) (E_Broadcast (normalizeMessage p))"
        using False unfolding loopEvent_def by auto
      have "list_all (loopEvent (readLimit s) (Data at p # inp))
          (E_Broadcast (normalizeMessage p) # body)"
        using e loopEvent_all_Cons [OF l(3), of "Data at p"] by simp
      moreover have "rtrace s' = rtrace s @ E_Broadcast (normalizeMessage p) # body"
        using l(2) by simp
      moreover have "readLoop s (Data at p # inp) = (b, s')"
        using False l(1) by (auto simp: readLoop_Data)
      ultimately show ?thesis unfolding Data using l(4,5) by auto
    qed
  next
    case (Pong at d)
    let ?s1 = "if pongSet s then SetReadDeadline (at + pongWait) s else s"
    show ?thesis
    proof (cases "expired s at")
      case True
      then show ?thesis unfolding Pong readLoop_Pong by auto
    next
      case False
      from Cons.IH [of ?s1] obtain b s' body where l:
        "readLoop ?s1 inp = (b, s')" "rtrace s' = rtrace ?s1 @ body"
        "list_all (loopEvent (readLimit ?s1) inp) body" "readDeadline ?s1 \<noteq> None \<longrightarrow> b"
        "readLimit s' = readLimit ?s1"
        by blast
      have lim: "readLimit ?s1 = readLimit s" by simp
      have lim': "readLimit s' = readLimit s" using l(5) lim by simp
      have run: "readLoop s (Pong at d # inp) = (b, s')"
        using False l(1) by (simp add: readLoop_Pong)
      have dl: "readDeadline s \<noteq> None \<longrightarrow> b" using l(4) by (cases "pongSet s") auto
      have all: "list_all (loopEvent (readLimit s) (Pong at d # inp)) body"
        using loopEvent_all_Cons [OF l(3), of "Pong at d"] unfolding lim .
      show ?thesis
      proof (cases "pongSet s")
        case True
        have e: "loopEvent (readLimit s) (Pong at d # inp) (E_SetReadDeadline (at + pongWait))"
          unfolding loopEvent_def by auto
        have "rtrace s' = rtrace s @ E_SetReadDeadline (at + pongWait) # body"
          using l(2) True by simp
        moreover have "list_all (loopEvent (readLimit s) (Pong at d # inp))
            (E_SetReadDeadline (at + pongWait) # body)"
          using e all by simp
        ultimately show ?thesis unfolding Pong using run dl lim' by blast
      next
        case False
        then have "rtrace s' = rtrace s @ body" using l(2) by simp
        then show ?thesis unfolding Pong using run dl all lim' by blast
      qed
    qed
  qed
qed

lemma loopEvent_not_cleanup:
  "list_all (loopEvent L inp) body \<Longrightarrow> E_Unregister \<notin> set body \<and> E_ConnClose \<notin> set body"
  by (induction body) (auto simp: loopEvent_def)

lemma readPump_unfold:
  "readPump now s inp =
     (case readLoop (readPump_init now s) inp of
        (True, s4) \<Rightarrow> (Exited, readPump_deferred s4)
      | (False, s4) \<Rightarrow> (Suspended, s4))"
  by (simp add: readPump_def readPump_init_def SetReadLimit_def SetReadDeadline_def
      SetPongHandler_def emitR_def maxMessageSize_def)

lemma readPump_run:
  "\<exists>s4 body. readLoop (readPump_init now s) inp = (True, s4)
     \<and> readPump now s inp = (Exited, readPump_deferred s4)
     \<and> rtrace (readPump_deferred s4) =
         rtrace s @ [E_SetReadLimit 512, E_SetReadDeadline (now + pongWait), E_SetPongHandler]
           @ body @ [E_Unregister, E_ConnClose]
     \<and> list_all (loopEvent 512 inp) body \<and> readLimit (readPump_deferred s4) = 512"
proof -
  from readLoop_body [of "readPump_init now s" inp] obtain b s4 body where
    l: "readLoop (readPump_init now s) inp = (b, s4)"
    "rtrace s4 = rtrace (readPump_init now s) @ body"
    "list_all (loopEvent (readLimit (readPump_init now s)) inp) body"
    "readDeadline (readPump_init now s) \<noteq> None \<longrightarrow> b"
    "readLimit s4 = readLimit (readPump_init now s)" by blast
  have b: "b" using l(4) by (simp add: readPump_init_def)
  have "readPump now s inp = (Exited, readPump_deferred s4)"
    using l(1) b by (simp add: readPump_unfold)
  moreover have "rtrace (readPump_deferred s4) =
      rtrace s @ [E_SetReadLimit 512, E_SetReadDeadline (now + pongWait), E_SetPongHandler]
        @ body @ [E_Unregister, E_ConnClose]"
    by (simp add: readPump_deferred_def l(2) readPump_init_def)
  moreover have "list_all (loopEvent 512 inp) body"
    using l(3) by (simp add: readPump_init_def)
  moreover from l(1) b have "readLoop (readPump_init now s) inp = (True, s4)" by simp
  moreover have "readLimit (readPump_deferred s4) = 512"
    using l(5) by (simp add: readPump_deferred_def readPump_init_def)
  ultimately show ?thesis by blast
qed

text \<open>
  C4. Whatever the connection delivers, the read pump leaves its loop at the first read
  error (a close of any code, a payload over the size limit, a timeout, any other
  failure), and then its deferred function submits the peer to the unregister intake
  and closes the connection: the trace of the run ends with exactly these two events,
  and neither occurs before.
\<close>

theorem readPump_cleanup:
  "\<exists>s' body. readPump now s inp = (Exited, s')
     \<and> rtrace s' = rtrace s @ body @ [E_Unregister, E_ConnClose]
     \<and> E_Unregister \<notin> set body \<and> E_ConnClose \<notin> set body"
proof -
  let ?init = "[E_SetReadLimit 512, E_SetReadDeadline (now + pongWait), E_SetPongHandler]"
  from readPump_run [of now s inp] obtain s4 body where
    r: "readPump now s inp = (Exited, readPump_deferred s4)"
    "rtrace (readPump_deferred s4) = rtrace s @ ?init @ body @ [E_Unregister, E_ConnClose]"
    "list_all (loopEvent 512 inp) body" by blast
  have "E_Unregister \<notin> set (?init @ body)" "E_ConnClose \<notin> set (?init @ body)"
    using loopEvent_not_cleanup [OF r(3)] by simp_all
  moreover have "rtrace (readPump_deferred s4) = rtrace s @ (?init @ body) @ [E_Unregister, E_ConnClose]"
    using r(2) by simp
  ultimately show ?thesis using r(1) by blast
qed

lemma length_TrimSpace: "length (TrimSpace s) \<le> length s"
proof -
  obtain pre suf where eq: "s = pre @ TrimSpace s @ suf"
    using TrimSpace_split by blast
  have "length (TrimSpace s) \<le> length (pre @ TrimSpace s @ suf)" by simp
  then show ?thesis by (simp only: eq [symmetric])
qed

lemma length_normalizeMessage: "length (normalizeMessage p) \<le> length p"
  using length_TrimSpace [of "map (\<lambda>b. if b = CHR 0x0A then CHR 0x20 else b) p"]
  unfolding normalizeMessage_eq by simp

lemma loopEvent_broadcast:
  "list_all (loopEvent L inp) body \<Longrightarrow> E_Broadcast b \<in> set body \<Longrightarrow>
   \<exists>at p. Data at p \<in> set inp \<and> \<not> (0 < L \<and> L < int (length p)) \<and> b = normalizeMessage p"
  by (induction body) (auto simp: loopEvent_def)

lemma loopEvent_deadline:
  "list_all (loopEvent L inp) body \<Longrightarrow> E_SetReadDeadline t \<in> set body \<Longrightarrow>
   \<exists>at d. Pong at d \<in> set inp \<and> t = at + pongWait"
  by (induction body) (auto simp: loopEvent_def)

lemma readPump_broadcasts:
  assumes "E_Broadcast b \<in> set (rtrace (snd (readPump now newReader inp)))"
  shows "\<exists>at p. Data at p \<in> set inp \<and> length p \<le> 512 \<and> b = normalizeMessage p"
proof -
  from readPump_run [of now newReader inp] obtain s4 body where
    r: "readPump now newReader inp = (Exited, readPump_deferred s4)"
    "rtrace (readPump_deferred s4) =
       rtrace newReader @ [E_SetReadLimit 512, E_SetReadDeadline (now + pongWait), E_SetPongHandler]
         @ body @ [E_Unregister, E_ConnClose]"
    "list_all (loopEvent 512 inp) body" by blast
  from assms have "E_Broadcast b \<in> set body"
    unfolding r(1) snd_conv r(2) by (simp add: newReader_def)
  from loopEvent_broadcast [OF r(3) this] obtain at p where
    p: "Data at p \<in> set inp" "\<not> (0 < (512::int) \<and> 512 < int (length p))"
    "b = normalizeMessage p" by blast
  from p(2) have "length p \<le> 512" by simp
  with p(1,3) show ?thesis by blast
qed

lemma readPump_first_payload:
  assumes "at \<le> now + pongWait" and "length p \<le> 512"
  shows "\<exists>rest. rtrace (snd (readPump now s (Data at p # inp))) =
      rtrace s @ [E_SetReadLimit 512, E_SetReadDeadline (now + pongWait), E_SetPongHandler,
        E_Broadcast (normalizeMessage p)] @ rest"
proof -
  let ?s1 = "emitR (E_Broadcast (normalizeMessage p)) (readPump_init now s)"
  have step: "readLoop (readPump_init now s) (Data at p # inp) = readLoop ?s1 inp"
    using assms by (simp add: readLoop_Data readPump_init_def expired_def)
  from readLoop_body [of ?s1 inp] obtain b s' body where
    l: "readLoop ?s1 inp = (b, s')" "rtrace s' = rtrace ?s1 @ body" by blast
  have "rtrace (snd (readPump now s (Data at p # inp))) = rtrace s' @ (if b then [E_Unregister, E_ConnClose] else [])"
    by (simp add: readPump_unfold step l(1) readPump_deferred_def)
  then show ?thesis by (simp add: l(2) readPump_init_def)
qed

lemma helloPayload_normalized: "normalizeMessage helloPayload = ''hello world''"
  by code_simp

lemma helloPayload_length: "length helloPayload = 16"
  by (simp add: helloPayload_def)

lemma helloPayload_pump:
  "rtrace (snd (readPump 0 newReader [Data 1 helloPayload])) =
     [E_SetReadLimit 512, E_SetReadDeadline 60000000000, E_SetPongHandler,
      E_Broadcast ''hello world'', E_Unregister, E_ConnClose]"
  by (simp add: readPump_unfold readPump_init_def readLoop_Data readLoop_Nil expired_def
      newReader_def pongWait_def Second_def readPump_deferred_def helloPayload_normalized
      helloPayload_length)

lemma payloadsRead_Nil: "payloadsRead s [] = []"
  by (subst payloadsRead.simps) (simp split: option.splits)

lemma payloadsRead_Fail: "payloadsRead s (Fail e # rest) = []"
  by (subst payloadsRead.simps) simp

lemma payloadsRead_Data:
  "payloadsRead s (Data at p # rest) =
     (if expired s at \<or> (0 < readLimit s \<and> readLimit s < int (length p)) then []
      else p # payloadsRead s rest)"
  by (subst payloadsRead.simps) auto

lemma payloadsRead_Pong:
  "payloadsRead s (Pong at d # rest) =
     (if expired s at then []
      else payloadsRead (if pongSet s then SetReadDeadline (at + pongWait) s else s) rest)"
  by (simp add: payloadsRead.simps [of s "Pong at d # rest"] payloadsRead.simps [of _ rest]
      handlePong_result)

lemma sameConn_expired: "sameConn s t \<Longrightarrow> expired s at = expired t at"
  by (simp add: sameConn_def expired_def)

lemma payloadsRead_sameConn: "sameConn s t \<Longrightarrow> payloadsRead s inp = payloadsRead t inp"
proof (induction inp arbitrary: s t)
  case Nil
  then show ?case by (simp add: payloadsRead_Nil)
next
  case (Cons x inp)
  show ?case
  proof (cases x)
    case (Fail e)
    then show ?thesis by (simp add: payloadsRead_Fail)
  next
    case (Data at p)
    have "payloadsRead s inp = payloadsRead t inp" using Cons.prems by (rule Cons.IH)
    then show ?thesis
      unfolding Data payloadsRead_Data
      using Cons.prems sameConn_expired [OF Cons.prems, of at] by (simp add: sameConn_def)
  next
    case (Pong at d)
    have "sameConn (if pongSet s then SetReadDeadline (at + pongWait) s else s)
        (if pongSet t then SetReadDeadline (at + pongWait) t else t)"
      using Cons.prems by (simp add: sameConn_def)
    from Cons.IH [OF this] show ?thesis
      unfolding Pong payloadsRead_Pong
      using sameConn_expired [OF Cons.prems, of at] by simp
  qed
qed

lemma broadcastsOf_append: "broadcastsOf (a @ b) = broadcastsOf a @ broadcastsOf b"
  by (induction a rule: broadcastsOf.induct) simp_all

lemma readLoop_broadcasts:
  "\<exists>b s' body. readLoop s inp = (b, s') \<and> rtrace s' = rtrace s @ body
     \<and> broadcastsOf body = map normalizeMessage (payloadsRead s inp)"
proof (induction inp arbitrary: s)
  case Nil
  have "readLoop s [] = (readDeadline s \<noteq> None, s)"
    by (cases "readDeadline s") (simp_all add: readLoop_Nil)
  then show ?case
    by (intro exI [of _ "readDeadline s \<noteq> None"] exI [of _ s] exI [of _ "[]"])
      (simp add: payloadsRead_Nil)
next
  case (Cons x inp)
  show ?case
  proof (cases x)
    case (Fail e)
    let ?s' = "if IsUnexpectedCloseError e [CloseGoingAway, CloseAbnormalClosure]
            then emitR (E_Printf e) s else s"
    let ?body = "if IsUnexpectedCloseError e [CloseGoingAway, CloseAbnormalClosure]
            then [E_Printf e] else []"
    show ?thesis
      unfolding Fail readLoop_Fail payloadsRead_Fail
      by (intro exI [of _ True] exI [of _ ?s'] exI [of _ ?body]) simp
  next
    case (Data at p)
    show ?thesis
    proof (cases "expired s at \<or> (0 < readLimit s \<and> readLimit s < int (length p))")
      case True
      then have "readLoop s (Data at p # inp) = (True, s)"
        "payloadsRead s (Data at p # inp) = []"
        by (auto simp: readLoop_Data payloadsRead_Data)
      then show ?thesis unfolding Data
        by (intro exI [of _ True] exI [of _ s] exI [of _ "[]"]) simp
    next
      case False
      define s1 where "s1 = emitR (E_Broadcast (normalizeMessage p)) s"
      from Cons.IH [of s1] obtain b s' body where
        l: "readLoop s1 inp = (b, s')" "rtrace s' = rtrace s1 @ body"
        "broadcastsOf body = map normalizeMessage (payloadsRead s1 inp)" by blast
      have "sameConn s1 s" by (simp add: s1_def sameConn_def)
      then have pr: "payloadsRead s1 inp = payloadsRead s inp" by (rule payloadsRead_sameConn)
      have run: "readLoop s (Data at p # inp) = (b, s')"
        using False l(1) by (auto simp: readLoop_Data s1_def)
      have p: "payloadsRead s (Data at p # inp) = p # payloadsRead s inp"
        using False by (auto simp: payloadsRead_Data)
      have t: "rtrace s' = rtrace s @ (E_Broadcast (normalizeMessage p) # body)"
        using l(2) by (simp add: s1_def)
      have "broadcastsOf (E_Broadcast (normalizeMessage p) # body)
          = map normalizeMessage (payloadsRead s (Data at p # inp))"
        using l(3) pr p by simp
      with run t show ?thesis unfolding Data by blast
    qed
  next
    case (Pong at d)
    show ?thesis
    proof (cases "expired s at")
      case True
      then have "readLoop s (Pong at d # inp) = (True, s)"
        "payloadsRead s (Pong at d # inp) = []"
        by (auto simp: readLoop_Pong payloadsRead_Pong)
      then show ?thesis unfolding Pong
        by (intro exI [of _ True] exI [of _ s] exI [of _ "[]"]) simp
    next
      case False
      define s1 where "s1 = (if pongSet s then SetReadDeadline (at + pongWait) s else s)"
      from Cons.IH [of s1] obtain b s' body where
        l: "readLoop s1 inp = (b, s')" "rtrace s' = rtrace s1 @ body"
        "broadcastsOf body = map normalizeMessage (payloadsRead s1 inp)" by blast
      have run: "readLoop s (Pong at d # inp) = (b, s')"
        using False l(1) by (simp add: readLoop_Pong s1_def)
      have p: "payloadsRead s (Pong at d # inp) = payloadsRead s1 inp"
        using False by (simp add: payloadsRead_Pong s1_def)
      obtain pre where pre: "rtrace s1 = rtrace s @ pre" "broadcastsOf pre = []"
        by (cases "pongSet s") (simp_all add: s1_def)
      have t: "rtrace s' = rtrace s @ (pre @ body)" using l(2) pre(1) by simp
      have "broadcastsOf (pre @ body) = map normalizeMessage (payloadsRead s (Pong at d # inp))"
        using l(3) pre(2) p by (simp add: broadcastsOf_append)
      with run t show ?thesis unfolding Pong by blast
    qed
  qed
qed

lemma readPump_init_eq:
  "SetPongHandler (SetReadDeadline (now + pongWait) (SetReadLimit maxMessageSize s))
     = readPump_init now s"
  by (simp add: readPump_init_def SetReadLimit_def SetReadDeadline_def
      SetPongHandler_def emitR_def maxMessageSize_def)

lemma readPump_broadcasts_exact:
  "\<exists>body. rtrace (snd (readPump now s inp)) = rtrace s @ body
     \<and> broadcastsOf body = map normalizeMessage
         (payloadsRead (SetPongHandler (SetReadDeadline (now + pongWait)
            (SetReadLimit maxMessageSize s))) inp)"
proof -
  from readLoop_broadcasts [of "readPump_init now s" inp] obtain b s' body where
    l: "readLoop (readPump_init now s) inp = (b, s')"
    "rtrace s' = rtrace (readPump_init now s) @ body"
    "broadcastsOf body = map normalizeMessage (payloadsRead (readPump_init now s) inp)"
    by blast
  let ?all = "[E_SetReadLimit 512, E_SetReadDeadline (now + pongWait), E_SetPongHandler]
      @ body @ (if b then [E_Unregister, E_ConnClose] else [])"
  have i: "rtrace (readPump_init now s) =
      rtrace s @ [E_SetReadLimit 512, E_SetReadDeadline (now + pongWait), E_SetPongHandler]"
    by (simp add: readPump_init_def)
  have "rtrace (snd (readPump now s inp)) = rtrace s @ ?all"
    by (cases b) (simp_all add: readPump_unfold l(1,2) i readPump_deferred_def)
  moreover have "broadcastsOf ?all = map normalizeMessage (payloadsRead (readPump_init now s) inp)"
    using l(3) by (simp add: broadcastsOf_append)
  ultimately show ?thesis unfolding readPump_init_eq by blast
qed

lemma crlf_normalized: "normalizeMessage crlfPayload = ''a'' @ [CHR 0x0D] @ '' b''"
  by code_simp

lemma twoPayloads_read:
  "payloadsRead (SetPongHandler (SetReadDeadline (0 + pongWait)
      (SetReadLimit maxMessageSize newReader))) twoPayloads = [helloPayload, ''  second '']"
  by code_simp

lemma second_normalized: "normalizeMessage ''  second '' = ''second''"
  by code_simp

lemma crlf_pump:
  "broadcastsOf (rtrace (snd (readPump 0 newReader [Data 1 crlfPayload]))) =
     [''a'' @ [CHR 0x0D] @ '' b'']"
  by code_simp

text \<open>
  C1, as stated, fails: "replaces every interior line-break character with a space". The
  source replaces the line feed only (its \<open>newline\<close>); a carriage return inside a
  payload stays, and the message broadcast holds it.
\<close>

theorem line_break_counterexample:
  "normalizeMessage crlfPayload = ''a'' @ [CHR 0x0D] @ '' b''
   \<and> CHR 0x0D \<in> set (normalizeMessage crlfPayload)
   \<and> broadcastsOf (rtrace (snd (readPump 0 newReader [Data 1 crlfPayload]))) =
       [''a'' @ [CHR 0x0D] @ '' b'']"
  using crlf_pump by (simp add: crlf_normalized)

text \<open>
  C1, amended. The read pump normalizes every payload it reads before it submits it to
  the broadcast intake: every line feed is replaced by a space, every other byte inside
  the message is kept, and the white space around the message is cut off (what is cut is
  white space only, and the result neither starts nor ends with white space, nor holds a
  line feed). The messages a run broadcasts are exactly the normalizations of the
  payloads its reads returned, in that order. For the bytes of the scenario the message
  broadcast is exactly \<open>hello world\<close>.
\<close>

theorem readPump_normalizes:
  "(\<exists>pre suf. map (\<lambda>b. if b = CHR 0x0A then CHR 0x20 else b) m = pre @ normalizeMessage m @ suf
       \<and> whitespace pre \<and> whitespace suf)
   \<and> leadingSpace (normalizeMessage m) = None
   \<and> trailingSpace (normalizeMessage m) = None
   \<and> CHR 0x0A \<notin> set (normalizeMessage m)
   \<and> (\<exists>body. rtrace (snd (readPump now s inp)) = rtrace s @ body
        \<and> broadcastsOf body = map normalizeMessage
            (payloadsRead (SetPongHandler (SetReadDeadline (now + pongWait)
               (SetReadLimit maxMessageSize s))) inp))
   \<and> (E_Broadcast b \<in> set (rtrace (snd (readPump now newReader inp)))
        \<longrightarrow> (\<exists>at p. Data at p \<in> set inp \<and> b = normalizeMessage p))
   \<and> (at \<le> now + pongWait \<and> length p \<le> 512
        \<longrightarrow> (\<exists>rest. rtrace (snd (readPump now s (Data at p # rest'))) =
              rtrace s @ [E_SetReadLimit 512, E_SetReadDeadline (now + pongWait),
                E_SetPongHandler, E_Broadcast (normalizeMessage p)] @ rest))
   \<and> normalizeMessage helloPayload = ''hello world''
   \<and> rtrace (snd (readPump 0 newReader [Data 1 helloPayload])) =
       [E_SetReadLimit 512, E_SetReadDeadline 60000000000, E_SetPongHandler,
        E_Broadcast ''hello world'', E_Unregister, E_ConnClose]"
proof -
  let ?r = "map (\<lambda>b. if b = CHR 0x0A then CHR 0x20 else b) m"
  have "\<exists>pre suf. ?r = pre @ normalizeMessage m @ suf \<and> whitespace pre \<and> whitespace suf"
    using TrimSpace_split [of ?r] unfolding normalizeMessage_eq .
  moreover have "leadingSpace (normalizeMessage m) = None"
    "trailingSpace (normalizeMessage m) = None"
    using TrimSpace_trimmed [of ?r] unfolding normalizeMessage_eq by simp_all
  moreover note normalize_no_newline [of m]
  moreover note readPump_broadcasts_exact [of now s inp]
  moreover have "E_Broadcast b \<in> set (rtrace (snd (readPump now newReader inp)))
      \<longrightarrow> (\<exists>at p. Data at p \<in> set inp \<and> b = normalizeMessage p)"
    using readPump_broadcasts [of b now inp] by blast
  moreover have "at \<le> now + pongWait \<and> length p \<le> 512
      \<longrightarrow> (\<exists>rest. rtrace (snd (readPump now s (Data at p # rest'))) =
            rtrace s @ [E_SetReadLimit 512, E_SetReadDeadline (now + pongWait),
              E_SetPongHandler, E_Broadcast (normalizeMessage p)] @ rest)"
    using readPump_first_payload [of at now p s rest'] by blast
  moreover note helloPayload_normalized helloPayload_pump
  ultimately show ?thesis by blast
qed

theorem readPump_normalizes_witness:
  "payloadsRead (SetPongHandler (SetReadDeadline (0 + pongWait)
      (SetReadLimit maxMessageSize newReader))) twoPayloads = [helloPayload, ''  second '']
   \<and> broadcastsOf (rtrace (snd (readPump 0 newReader twoPayloads))) = [''hello world'', ''second'']
   \<and> E_Broadcast ''hello world'' \<in> set (rtrace (snd (readPump 0 newReader [Data 1 helloPayload])))
   \<and> (\<exists>at p. Data at p \<in> set [Data 1 helloPayload] \<and> ''hello world'' = normalizeMessage p)
   \<and> (1::int) \<le> 0 + pongWait \<and> length helloPayload \<le> 512
   \<and> (\<exists>rest. rtrace (snd (readPump 0 newReader (Data 1 helloPayload # []))) =
         rtrace newReader @ [E_SetReadLimit 512, E_SetReadDeadline (0 + pongWait),
           E_SetPongHandler, E_Broadcast (normalizeMessage helloPayload)] @ rest)
   \<and> leadingSpace (normalizeMessage helloPayload) = None
   \<and> trailingSpace (normalizeMessage helloPayload) = None"
proof -
  have a: "E_Broadcast ''hello world'' \<in> set (rtrace (snd (readPump 0 newReader [Data 1 helloPayload])))"
    by (simp add: helloPayload_pump)
  have b: "(1::int) \<le> 0 + pongWait \<and> length helloPayload \<le> 512"
    by (simp add: pongWait_def Second_def helloPayload_length)
  from readPump_normalizes [of helloPayload 0 newReader twoPayloads]
  obtain body where
    e: "rtrace (snd (readPump 0 newReader twoPayloads)) = rtrace newReader @ body"
    "broadcastsOf body = map normalizeMessage
        (payloadsRead (SetPongHandler (SetReadDeadline (0 + pongWait)
           (SetReadLimit maxMessageSize newReader))) twoPayloads)" by blast
  have n: "rtrace newReader = []" by (simp add: newReader_def)
  have t: "rtrace (snd (readPump 0 newReader twoPayloads)) = body" using e(1) n by simp
  have m: "map normalizeMessage [helloPayload, ''  second ''] = [''hello world'', ''second'']"
    by (simp add: helloPayload_normalized second_normalized)
  have c: "broadcastsOf (rtrace (snd (readPump 0 newReader twoPayloads)))
      = [''hello world'', ''second'']"
    by (simp only: t e(2) twoPayloads_read m)
  from a b c twoPayloads_read
    readPump_normalizes [of helloPayload 0 newReader "[Data 1 helloPayload]" "''hello world''" 1
      helloPayload "[]"]
  show ?thesis by blast
qed

theorem readPump_cleanup_witness:
  "rtrace (snd (readPump 0 newReader [Fail (CloseError 1000)])) =
     [E_SetReadLimit 512, E_SetReadDeadline 60000000000, E_SetPongHandler,
      E_Printf (CloseError 1000), E_Unregister, E_ConnClose]
   \<and> rtrace (snd (readPump 0 newReader [Fail (CloseError 1006)])) =
     [E_SetReadLimit 512, E_SetReadDeadline 60000000000, E_SetPongHandler,
      E_Unregister, E_ConnClose]
   \<and> rtrace (snd (readPump 0 newReader [Data 1 (replicate 513 (CHR ''a''))])) =
     [E_SetReadLimit 512, E_SetReadDeadline 60000000000, E_SetPongHandler,
      E_Unregister, E_ConnClose]
   \<and> rtrace (snd (readPump 0 newReader [Fail ErrNet])) =
     [E_SetReadLimit 512, E_SetReadDeadline 60000000000, E_SetPongHandler,
      E_Unregister, E_ConnClose]
   \<and> (\<exists>s' body. readPump 0 newReader [Fail ErrNet] = (Exited, s')
        \<and> rtrace s' = rtrace newReader @ body @ [E_Unregister, E_ConnClose]
        \<and> E_Unregister \<notin> set body \<and> E_ConnClose \<notin> set body)"
proof -
  have "rtrace (snd (readPump 0 newReader [Fail (CloseError 1000)])) =
     [E_SetReadLimit 512, E_SetReadDeadline 60000000000, E_SetPongHandler,
      E_Printf (CloseError 1000), E_Unregister, E_ConnClose]"
    by (simp add: readPump_unfold readPump_init_def readLoop_Fail newReader_def pongWait_def
        Second_def readPump_deferred_def CloseGoingAway_def CloseAbnormalClosure_def)
  moreover have "rtrace (snd (readPump 0 newReader [Fail (CloseError 1006)])) =
     [E_SetReadLimit 512, E_SetReadDeadline 60000000000, E_SetPongHandler,
      E_Unregister, E_ConnClose]"
    by (simp add: readPump_unfold readPump_init_def readLoop_Fail newReader_def pongWait_def
        Second_def readPump_deferred_def CloseGoingAway_def CloseAbnormalClosure_def)
  moreover have "rtrace (snd (readPump 0 newReader [Data 1 (replicate 513 (CHR ''a''))])) =
     [E_SetReadLimit 512, E_SetReadDeadline 60000000000, E_SetPongHandler,
      E_Unregister, E_ConnClose]"
    by (simp add: readPump_unfold readPump_init_def readLoop_Data newReader_def pongWait_def
        Second_def readPump_deferred_def expired_def)
  moreover have "rtrace (snd (readPump 0 newReader [Fail ErrNet])) =
     [E_SetReadLimit 512, E_SetReadDeadline 60000000000, E_SetPongHandler,
      E_Unregister, E_ConnClose]"
    by (simp add: readPump_unfold readPump_init_def readLoop_Fail newReader_def pongWait_def
        Second_def readPump_deferred_def)
  moreover note readPump_cleanup [of 0 newReader "[Fail ErrNet]"]
  ultimately show ?thesis by blast
qed

lemma readLoop_oversized:
  "readLimit s = 512 \<Longrightarrow> 512 < length p \<Longrightarrow>
   readLoop s (pre @ Data at p # post) = readLoop s (pre @ [Fail ErrReadLimit])"
proof (induction pre arbitrary: s)
  case Nil
  then show ?case by (simp add: readLoop_Data readLoop_Fail)
next
  case (Cons x pre)
  show ?case
  proof (cases x)
    case (Fail e)
    then show ?thesis by (simp add: readLoop_Fail)
  next
    case (Data at' p')
    have "readLimit (emitR (E_Broadcast (normalizeMessage p')) s) = 512"
      using Cons.prems(1) by simp
    from Cons.IH [OF this Cons.prems(2)] show ?thesis
      unfolding Data by (simp add: readLoop_Data)
  next
    case (Pong at' d)
    have "readLimit (if pongSet s then SetReadDeadline (at' + pongWait) s else s) = 512"
      using Cons.prems(1) by simp
    from Cons.IH [OF this Cons.prems(2)] show ?thesis
      unfolding Pong by (simp add: readLoop_Pong)
  qed
qed

lemma readPump_oversized:
  assumes "512 < length p"
  shows "readPump now s (pre @ Data at p # post) = readPump now s (pre @ [Fail ErrReadLimit])"
proof -
  have "readLimit (readPump_init now s) = 512" by (simp add: readPump_init_def)
  from readLoop_oversized [OF this assms] show ?thesis
    by (simp add: readPump_unfold)
qed

lemma ReadMessage_oversized:
  "readLimit c = 512 \<Longrightarrow> 512 < length p \<Longrightarrow> \<not> expired c at \<Longrightarrow>
   fst (ReadMessage c (Data at p # rest)) = ReadErr ErrReadLimit"
  by simp

lemma readPump_starts:
  "\<exists>rest. rtrace (snd (readPump now s inp)) =
     rtrace s @ [E_SetReadLimit 512, E_SetReadDeadline (now + pongWait), E_SetPongHandler] @ rest"
  using readPump_run [of now s inp] by force

lemma readPump_limit: "readLimit (snd (readPump now s inp)) = 512"
  using readPump_run [of now s inp] by force

lemma readPump_broadcast_bound:
  assumes "E_Broadcast b \<in> set (rtrace (snd (readPump now newReader inp)))"
  shows "length b \<le> 512"
proof -
  from readPump_broadcasts [OF assms] obtain at p where
    "length p \<le> 512" "b = normalizeMessage p" by blast
  with length_normalizeMessage [of p] show ?thesis by simp
qed

lemma readPump_exits:
  "\<exists>s' body. readPump now s inp = (Exited, s')
     \<and> rtrace s' = rtrace s @ body @ [E_Unregister, E_ConnClose]"
  using readPump_run [of now s inp] by (metis append_assoc)

text \<open>
  C7. The size limit is 512 bytes. The read pump sets it first of all, and it is still
  512 when the pump has returned. A read of a payload longer than 512 bytes returns the
  read-limit error, and from there the run is the run on a transport failure at that
  place: the loop ends and the deferred function unregisters and closes. So no message
  broadcast is longer than 512 bytes.
\<close>

theorem readPump_size_limit:
  "maxMessageSize = 512
   \<and> (\<exists>rest. rtrace (snd (readPump now s inp)) = rtrace s @ E_SetReadLimit 512 # rest)
   \<and> readLimit (snd (readPump now s inp)) = 512
   \<and> (readLimit c = 512 \<and> 512 < length p \<and> \<not> expired c at
        \<longrightarrow> fst (ReadMessage c (Data at p # post)) = ReadErr ErrReadLimit)
   \<and> (512 < length p
        \<longrightarrow> readPump now s (pre @ Data at p # post) = readPump now s (pre @ [Fail ErrReadLimit]))
   \<and> (\<exists>s' body. readPump now s (pre @ [Fail ErrReadLimit]) = (Exited, s')
        \<and> rtrace s' = rtrace s @ body @ [E_Unregister, E_ConnClose])
   \<and> (E_Broadcast b \<in> set (rtrace (snd (readPump now newReader inp))) \<longrightarrow> length b \<le> 512)"
proof -
  have "\<exists>rest. rtrace (snd (readPump now s inp)) = rtrace s @ E_SetReadLimit 512 # rest"
    using readPump_starts [of now s inp] by auto
  moreover note readPump_limit [of now s inp]
  moreover have "readLimit c = 512 \<and> 512 < length p \<and> \<not> expired c at
      \<longrightarrow> fst (ReadMessage c (Data at p # post)) = ReadErr ErrReadLimit"
    using ReadMessage_oversized [of c p at post] by blast
  moreover have "512 < length p
      \<longrightarrow> readPump now s (pre @ Data at p # post) = readPump now s (pre @ [Fail ErrReadLimit])"
    using readPump_oversized [of p now s pre at post] by blast
  moreover note readPump_exits [of now s "pre @ [Fail ErrReadLimit]"]
  moreover have "E_Broadcast b \<in> set (rtrace (snd (readPump now newReader inp))) \<longrightarrow> length b \<le> 512"
    using readPump_broadcast_bound [of b now inp] by blast
  ultimately show ?thesis unfolding maxMessageSize_def by blast
qed

theorem readPump_size_limit_witness:
  "readPump 0 newReader ([Data 1 ''hi''] @ Data 2 (replicate 513 (CHR ''a'')) # [Data 3 ''late''])
     = readPump 0 newReader ([Data 1 ''hi''] @ [Fail ErrReadLimit])
   \<and> rtrace (snd (readPump 0 newReader ([Data 1 ''hi''] @ [Fail ErrReadLimit]))) =
       [E_SetReadLimit 512, E_SetReadDeadline 60000000000, E_SetPongHandler,
        E_Broadcast ''hi'', E_Unregister, E_ConnClose]
   \<and> fst (ReadMessage (readPump_init 0 newReader) (Data 2 (replicate 513 (CHR ''a'')) # [Data 3 ''late'']))
       = ReadErr ErrReadLimit
   \<and> length ''hi'' \<le> 512"
proof -
  have big: "512 < length (replicate 513 (CHR ''a''))" by simp
  have c: "readLimit (readPump_init 0 newReader) = 512 \<and> 512 < length (replicate 513 (CHR ''a''))
      \<and> \<not> expired (readPump_init 0 newReader) 2"
    by (simp add: readPump_init_def expired_def newReader_def pongWait_def Second_def)
  have hi: "normalizeMessage ''hi'' = ''hi''" by code_simp
  have tr: "rtrace (snd (readPump 0 newReader ([Data 1 ''hi''] @ [Fail ErrReadLimit]))) =
       [E_SetReadLimit 512, E_SetReadDeadline 60000000000, E_SetPongHandler,
        E_Broadcast ''hi'', E_Unregister, E_ConnClose]"
    by (simp add: readPump_unfold readPump_init_def readLoop_Data readLoop_Fail expired_def
        newReader_def pongWait_def Second_def readPump_deferred_def hi)
  then have b: "E_Broadcast ''hi'' \<in> set (rtrace (snd (readPump 0 newReader ([Data 1 ''hi''] @ [Fail ErrReadLimit]))))"
    by simp
  from big c tr b
    readPump_size_limit [of 0 newReader "[Data 1 ''hi''] @ [Fail ErrReadLimit]"
      "readPump_init 0 newReader" "replicate 513 (CHR ''a'')" 2 "[Data 3 ''late'']"
      "[Data 1 ''hi'']" "''hi''"]
  show ?thesis by blast
qed

section \<open>The write pump\<close>

lemma emitW_fields [simp]:
  "send (emitW e s) = send s" "interf (emitW e s) = interf s" "faults (emitW e s) = faults s"
  "werr (emitW e s) = werr s" "wbuf (emitW e s) = wbuf s" "wtrace (emitW e s) = wtrace s @ [e]"
  by (simp_all add: emitW_def)

lemma nextFault_eq: "nextFault s = (headFault s, s\<lparr>faults := tl (faults s)\<rparr>)"
  by (cases "faults s") (simp_all add: nextFault_def headFault_def)

lemma interfere_eq:
  "interfere s = s\<lparr>send := fold hub_step (headBatch s) (send s), interf := tl (interf s)\<rparr>"
  by (cases "interf s") (simp_all add: interfere_def headBatch_def)

lemma interfere_fields [simp]:
  "send (interfere s) = fold hub_step (headBatch s) (send s)"
  "interf (interfere s) = tl (interf s)" "faults (interfere s) = faults s"
  "werr (interfere s) = werr s" "wbuf (interfere s) = wbuf s" "wtrace (interfere s) = wtrace s"
  by (simp_all add: interfere_eq)

lemma headFault_emitW [simp]: "headFault (emitW e s) = headFault s"
  by (simp add: headFault_def)

lemma headBatch_emitW [simp]: "headBatch (emitW e s) = headBatch s"
  by (simp add: headBatch_def)

lemma writeResult_emitW [simp]: "writeResult (emitW e s) = writeResult s"
  by (simp add: writeResult_def split: option.splits)

lemma Write_fields [simp]:
  "send (Write p s) = send s" "interf (Write p s) = interf s"
  "wtrace (Write p s) = wtrace s @ [E_Write p (writeResult s)]"
  "werr (Write p s) = writeResult s"
  "faults (Write p s) = (if werr s = None then tl (faults s) else faults s)"
  "wbuf (Write p s) = (if writeResult s = None then wbuf s @ p else wbuf s)"
  by (auto simp: Write_def writeResult_def nextFault_eq split: option.splits)

lemma headBatch_Write [simp]: "headBatch (Write p s) = headBatch s"
  by (simp add: headBatch_def)

lemma WriterClose_eq:
  "WriterClose s =
     (writeResult s,
      emitW (E_WriterClose (wbuf s) (writeResult s))
        (if werr s = None then s\<lparr>faults := tl (faults s)\<rparr> else s))"
  by (auto simp: WriterClose_def writeResult_def nextFault_eq split: option.splits)

lemma NextWriter_eq:
  "NextWriter ty s =
     (headFault s,
      emitW (E_NextWriter ty (headFault s)) (s\<lparr>faults := tl (faults s), werr := None, wbuf := []\<rparr>))"
  by (simp add: NextWriter_def nextFault_eq)

lemma WriteMessage_eq:
  "WriteMessage ty p s =
     (headFault s, emitW (E_WriteMessage ty p (headFault s)) (s\<lparr>faults := tl (faults s)\<rparr>))"
  by (simp add: WriteMessage_def nextFault_eq)

lemma chanRecv_Cons:
  "buf (send (interfere s)) = m # ms \<Longrightarrow>
   chanRecv s = (Got m, emitW (E_Recv (Some m)) ((interfere s)\<lparr>send := (send (interfere s))\<lparr>buf := ms\<rparr>\<rparr>))"
  by (simp add: chanRecv_def Let_def)

lemma chanRecv_Nil:
  "buf (send (interfere s)) = [] \<Longrightarrow>
   chanRecv s = (if closed (send (interfere s)) then (Drained, emitW (E_Recv None) (interfere s))
                 else (Empty, interfere s))"
  by (simp add: chanRecv_def Let_def)

lemma sentBy_append: "sentBy (a @ b) = sentBy a @ sentBy b"
  by (induction a rule: sentBy.induct) simp_all

lemma fold_hub_step:
  "\<exists>later. buf (fold hub_step b ch) = buf ch @ later \<and> subseq later (sentBy b)"
proof (induction b arbitrary: ch)
  case Nil
  then show ?case by simp
next
  case (Cons a b)
  from Cons [of "hub_step a ch"] obtain later where
    l: "buf (fold hub_step b (hub_step a ch)) = buf (hub_step a ch) @ later"
    "subseq later (sentBy b)" by blast
  show ?case
  proof (cases a)
    case (Send m)
    show ?thesis
    proof (cases "closed ch \<or> sendCap \<le> length (buf ch)")
      case True
      then have "buf (fold hub_step (a # b) ch) = buf ch @ later" using l(1) Send by simp
      moreover have "subseq later (sentBy (a # b))" using l(2) Send by auto
      ultimately show ?thesis by blast
    next
      case False
      then have "buf (fold hub_step (a # b) ch) = buf ch @ (m # later)" using l(1) Send by simp
      moreover have "subseq (m # later) (sentBy (a # b))" using l(2) Send by simp
      ultimately show ?thesis by blast
    qed
  next
    case CloseChan
    then have "buf (fold hub_step (a # b) ch) = buf ch @ later" using l(1) by simp
    moreover have "subseq later (sentBy (a # b))" using l(2) CloseChan by simp
    ultimately show ?thesis by blast
  qed
qed


lemma drain_takes:
  "k \<le> length (buf (send s)) \<Longrightarrow>
   \<exists>s' new later. drain k s = (True, s') \<and> wtrace s' = wtrace s @ new
     \<and> receivedOf new = take k (buf (send s))
     \<and> writtenOf new = concat (map (\<lambda>m. [newline, m]) (take k (buf (send s))))
     \<and> buf (send s') = drop k (buf (send s)) @ later
     \<and> subseq later (sentBy (concat (take k (interf s))))"
proof (induction k arbitrary: s)
  case 0
  then show ?case by simp
next
  case (Suc k)
  then obtain m ms where q: "buf (send s) = m # ms" by (cases "buf (send s)") auto
  let ?s0 = "Write newline s"
  obtain l1 where l1: "buf (fold hub_step (headBatch s) (send s)) = buf (send s) @ l1"
    "subseq l1 (sentBy (headBatch s))"
    using fold_hub_step by blast
  have b1: "buf (send (interfere ?s0)) = m # (ms @ l1)" using l1(1) q by simp
  let ?s1 = "emitW (E_Recv (Some m)) ((interfere ?s0)\<lparr>send := (send (interfere ?s0))\<lparr>buf := ms @ l1\<rparr>\<rparr>)"
  have rc: "chanRecv ?s0 = (Got m, ?s1)" using chanRecv_Cons [OF b1] .
  let ?s2 = "Write m ?s1"
  have step: "drain (Suc k) s = drain k ?s2" by (simp add: rc)
  have b2: "buf (send ?s2) = ms @ l1" by simp
  have k: "k \<le> length (buf (send ?s2))" using Suc.prems q by (simp add: b2)
  from Suc.IH [OF k] obtain s' new later where
    ih: "drain k ?s2 = (True, s')" "wtrace s' = wtrace ?s2 @ new"
    "receivedOf new = take k (buf (send ?s2))"
    "writtenOf new = concat (map (\<lambda>m. [newline, m]) (take k (buf (send ?s2))))"
    "buf (send s') = drop k (buf (send ?s2)) @ later"
    "subseq later (sentBy (concat (take k (interf ?s2))))" by blast
  have kms: "k \<le> length ms" using Suc.prems q by simp
  let ?new = "[E_Write newline (writeResult s), E_Recv (Some m), E_Write m (writeResult ?s1)] @ new"
  have t: "wtrace s' = wtrace s @ ?new" using ih(2) by simp
  have r: "receivedOf ?new = take (Suc k) (buf (send s))"
    using ih(3) kms by (simp add: b2 q)
  have w: "writtenOf ?new = concat (map (\<lambda>m. [newline, m]) (take (Suc k) (buf (send s))))"
    using ih(4) kms by (simp add: b2 q)
  have bf: "buf (send s') = drop (Suc k) (buf (send s)) @ (l1 @ later)"
    using ih(5) kms by (simp add: b2 q)
  have i2: "interf ?s2 = tl (interf s)" by simp
  have "subseq (l1 @ later) (sentBy (headBatch s) @ sentBy (concat (take k (tl (interf s)))))"
    using l1(2) ih(6) unfolding i2 by (rule list_emb_append_mono)
  moreover have "sentBy (headBatch s) @ sentBy (concat (take k (tl (interf s))))
      = sentBy (concat (take (Suc k) (interf s)))"
    by (cases "interf s") (simp_all add: headBatch_def sentBy_append)
  ultimately have sb: "subseq (l1 @ later) (sentBy (concat (take (Suc k) (interf s))))"
    by simp
  have d: "drain (Suc k) s = (True, s')" using step ih(1) by simp
  show ?case
  proof (intro exI conjI)
    show "drain (Suc k) s = (True, s')" by fact
    show "wtrace s' = wtrace s @ ?new" by fact
    show "receivedOf ?new = take (Suc k) (buf (send s))" by fact
    show "writtenOf ?new = concat (map (\<lambda>m. [newline, m]) (take (Suc k) (buf (send s))))"
      by fact
    show "buf (send s') = drop (Suc k) (buf (send s)) @ (l1 @ later)" by fact
    show "subseq (l1 @ later) (sentBy (concat (take (Suc k) (interf s))))" by fact
  qed
qed

lemma testedFailure_failedWrite: "testedFailure e \<Longrightarrow> failedWrite e"
  by (cases e rule: testedFailure.cases) simp_all

lemma drainEvent_not_tested: "drainEvent e \<Longrightarrow> \<not> testedFailure e"
  by (cases e rule: drainEvent.cases) simp_all

lemma drainEvents_not_tested: "list_all drainEvent es \<Longrightarrow> \<not> list_ex testedFailure es"
  by (induction es) (auto dest: drainEvent_not_tested)

lemma failedWrite_Write [simp]: "failedWrite (E_Write p r) \<longleftrightarrow> r \<noteq> None"
  by (cases r) simp_all

lemma failedWrite_WriterClose [simp]: "failedWrite (E_WriterClose p r) \<longleftrightarrow> r \<noteq> None"
  by (cases r) simp_all

lemma failedWrite_NextWriter [simp]: "failedWrite (E_NextWriter ty r) \<longleftrightarrow> r \<noteq> None"
  by (cases r) simp_all

lemma failedWrite_WriteMessage [simp]: "failedWrite (E_WriteMessage ty p r) \<longleftrightarrow> r \<noteq> None"
  by (cases r) simp_all

lemma testedFailure_WriterClose [simp]: "testedFailure (E_WriterClose p r) \<longleftrightarrow> r \<noteq> None"
  by (cases r) simp_all

lemma testedFailure_NextWriter [simp]: "testedFailure (E_NextWriter ty r) \<longleftrightarrow> r \<noteq> None"
  by (cases r) simp_all

lemma testedFailure_WriteMessage [simp]: "testedFailure (E_WriteMessage ty p r) \<longleftrightarrow> r \<noteq> None"
  by (cases r) simp_all

lemma writeResult_sticky: "werr s \<noteq> None \<Longrightarrow> writeResult s \<noteq> None"
  by (auto simp: writeResult_def)

lemma chanRecv_run:
  "\<exists>r s' new. chanRecv s = (r, s') \<and> wtrace s' = wtrace s @ new \<and> list_all drainEvent new
     \<and> \<not> list_ex failedWrite new \<and> werr s' = werr s \<and> faults s' = faults s \<and> wbuf s' = wbuf s"
proof (cases "buf (send (interfere s))")
  case Nil
  show ?thesis
  proof (cases "closed (send (interfere s))")
    case True
    then have "chanRecv s = (Drained, emitW (E_Recv None) (interfere s))"
      using chanRecv_Nil [OF Nil] by simp
    moreover have "wtrace (emitW (E_Recv None) (interfere s)) = wtrace s @ [E_Recv None]"
      "list_all drainEvent [E_Recv None]" "\<not> list_ex failedWrite [E_Recv None]"
      by simp_all
    ultimately show ?thesis by (intro exI [of _ Drained] exI [of _ "emitW (E_Recv None) (interfere s)"]
          exI [of _ "[E_Recv None]"]) simp
  next
    case False
    then have "chanRecv s = (Empty, interfere s)" using chanRecv_Nil [OF Nil] by simp
    then show ?thesis
      by (intro exI [of _ Empty] exI [of _ "interfere s"] exI [of _ "[]"]) simp
  qed
next
  case (Cons m ms)
  let ?s' = "emitW (E_Recv (Some m)) ((interfere s)\<lparr>send := (send (interfere s))\<lparr>buf := ms\<rparr>\<rparr>)"
  have "chanRecv s = (Got m, ?s')" using chanRecv_Cons [OF Cons] .
  then show ?thesis
    by (intro exI [of _ "Got m"] exI [of _ ?s'] exI [of _ "[E_Recv (Some m)]"]) simp
qed

lemma drain_events:
  "\<exists>b s' new. drain k s = (b, s') \<and> wtrace s' = wtrace s @ new \<and> list_all drainEvent new
     \<and> (werr s \<noteq> None \<or> list_ex failedWrite new \<longrightarrow> werr s' \<noteq> None)"
proof (induction k arbitrary: s)
  case 0
  show ?case by (intro exI [of _ True] exI [of _ s] exI [of _ "[]"]) simp
next
  case (Suc k)
  let ?s0 = "Write newline s"
  from chanRecv_run [of ?s0] obtain r s1 new1 where
    c: "chanRecv ?s0 = (r, s1)" "wtrace s1 = wtrace ?s0 @ new1" "list_all drainEvent new1"
    "\<not> list_ex failedWrite new1" "werr s1 = werr ?s0" by blast
  have w0: "werr s \<noteq> None \<or> writeResult s \<noteq> None \<longrightarrow> werr s1 \<noteq> None"
    using c(5) writeResult_sticky [of s] by auto
  show ?case
  proof (cases r)
    case Empty
    have "drain (Suc k) s = (False, s1)" using c(1) Empty by simp
    moreover have "wtrace s1 = wtrace s @ (E_Write newline (writeResult s) # new1)"
      using c(2) by simp
    moreover have "list_all drainEvent (E_Write newline (writeResult s) # new1)"
      using c(3) by simp
    moreover have "werr s \<noteq> None \<or> list_ex failedWrite (E_Write newline (writeResult s) # new1)
        \<longrightarrow> werr s1 \<noteq> None"
      using w0 c(4) by auto
    ultimately show ?thesis by blast
  next
    case (Got m)
    let ?s2 = "Write m s1"
    from Suc [of ?s2] obtain b s' new where
      ih: "drain k ?s2 = (b, s')" "wtrace s' = wtrace ?s2 @ new" "list_all drainEvent new"
      "werr ?s2 \<noteq> None \<or> list_ex failedWrite new \<longrightarrow> werr s' \<noteq> None" by blast
    let ?new = "E_Write newline (writeResult s) # new1 @ E_Write m (writeResult s1) # new"
    have "drain (Suc k) s = (b, s')" using c(1) Got ih(1) by simp
    moreover have "wtrace s' = wtrace s @ ?new" using c(2) ih(2) by simp
    moreover have "list_all drainEvent ?new" using c(3) ih(3) by simp
    moreover have "werr s \<noteq> None \<or> list_ex failedWrite ?new \<longrightarrow> werr s' \<noteq> None"
      using w0 c(4) ih(4) writeResult_sticky [of s1] by auto
    ultimately show ?thesis by blast
  next
    case Drained
    let ?s2 = "Write [] s1"
    from Suc [of ?s2] obtain b s' new where
      ih: "drain k ?s2 = (b, s')" "wtrace s' = wtrace ?s2 @ new" "list_all drainEvent new"
      "werr ?s2 \<noteq> None \<or> list_ex failedWrite new \<longrightarrow> werr s' \<noteq> None" by blast
    let ?new = "E_Write newline (writeResult s) # new1 @ E_Write [] (writeResult s1) # new"
    have "drain (Suc k) s = (b, s')" using c(1) Drained ih(1) by simp
    moreover have "wtrace s' = wtrace s @ ?new" using c(2) ih(2) by simp
    moreover have "list_all drainEvent ?new" using c(3) ih(3) by simp
    moreover have "werr s \<noteq> None \<or> list_ex failedWrite ?new \<longrightarrow> werr s' \<noteq> None"
      using w0 c(4) ih(4) writeResult_sticky [of s1] by auto
    ultimately show ?thesis by blast
  qed
qed






lemma atSnapshot_fields:
  "buf (send (atSnapshot message s)) = buf (send (interfere s))"
  "interf (atSnapshot message s) = tl (interf s)"
  "wtrace (atSnapshot message s) =
     wtrace s @ [E_NextWriter TextMessage None, E_Write message (writeResult (afterNextWriter s))]"
  by (simp_all add: atSnapshot_def afterNextWriter_def headBatch_def)

lemma messageBranch_fail:
  "headFault s = Some e \<Longrightarrow>
   messageBranch message s =
     (Return, emitW (E_NextWriter TextMessage (Some e))
        (s\<lparr>faults := tl (faults s), werr := None, wbuf := []\<rparr>))"
  by (simp add: messageBranch_def NextWriter_eq)

lemma messageBranch_ok:
  assumes "headFault s = None"
  shows "messageBranch message s =
     (case drain (length (buf (send (interfere s)))) (atSnapshot message s) of
        (False, s3) \<Rightarrow> (Stuck, s3)
      | (True, s3) \<Rightarrow>
          (if writeResult s3 = None then Continue else Return, snd (WriterClose s3)))"
proof -
  have nw: "NextWriter TextMessage s = (None, afterNextWriter s)"
    using assms by (simp add: NextWriter_eq afterNextWriter_def)
  have cl: "chanLen (Write message (afterNextWriter s)) =
      (length (buf (send (interfere s))), atSnapshot message s)"
    by (simp add: chanLen_def Let_def atSnapshot_def afterNextWriter_def headBatch_def)
  show ?thesis
    by (simp add: messageBranch_def nw cl WriterClose_eq
        split: prod.splits bool.splits option.splits)
qed

lemma messageBranch_snapshot:
  assumes "headFault s = None"
  shows "\<exists>s3 new later.
      drain (length (buf (send (interfere s)))) (atSnapshot message s) = (True, s3)
    \<and> wtrace s3 = wtrace (atSnapshot message s) @ new
    \<and> receivedOf new = buf (send (interfere s))
    \<and> writtenOf new = concat (map (\<lambda>m. [newline, m]) (buf (send (interfere s))))
    \<and> buf (send s3) = later
    \<and> subseq later (sentBy (concat (take (length (buf (send (interfere s)))) (tl (interf s)))))
    \<and> list_all drainEvent new
    \<and> (werr (atSnapshot message s) \<noteq> None \<or> list_ex failedWrite new \<longrightarrow> werr s3 \<noteq> None)"
proof -
  define s2 where "s2 = atSnapshot message s"
  define q where "q = buf (send (interfere s))"
  have f: "buf (send s2) = q" "interf s2 = tl (interf s)"
    by (simp_all only: s2_def q_def atSnapshot_fields)
  have "length q \<le> length (buf (send s2))" by (simp add: f)
  from drain_takes [OF this] obtain s3 new later where
    d: "drain (length q) s2 = (True, s3)" "wtrace s3 = wtrace s2 @ new"
    "receivedOf new = take (length q) (buf (send s2))"
    "writtenOf new = concat (map (\<lambda>m. [newline, m]) (take (length q) (buf (send s2))))"
    "buf (send s3) = drop (length q) (buf (send s2)) @ later"
    "subseq later (sentBy (concat (take (length q) (interf s2))))" by blast
  from drain_events [of "length q" s2] obtain b s' new' where
    e: "drain (length q) s2 = (b, s')" "wtrace s' = wtrace s2 @ new'" "list_all drainEvent new'"
    "werr s2 \<noteq> None \<or> list_ex failedWrite new' \<longrightarrow> werr s' \<noteq> None" by blast
  have same: "s' = s3" "new' = new" using d(1,2) e(1,2) by simp_all
  have "receivedOf new = q" "writtenOf new = concat (map (\<lambda>m. [newline, m]) q)"
    "buf (send s3) = later" "subseq later (sentBy (concat (take (length q) (tl (interf s)))))"
    using d(3,4,5,6) by (simp_all add: f)
  moreover have "list_all drainEvent new"
    "werr s2 \<noteq> None \<or> list_ex failedWrite new \<longrightarrow> werr s3 \<noteq> None"
    using e(3,4) same by simp_all
  ultimately show ?thesis using d(1,2) unfolding s2_def q_def by blast
qed

lemma WriterClose_fields:
  "send (snd (WriterClose s)) = send s"
  "wtrace (snd (WriterClose s)) = wtrace s @ [E_WriterClose (wbuf s) (writeResult s)]"
  by (simp_all add: WriterClose_eq)

lemma messageBranch_ok_run:
  assumes "headFault s = None"
  shows "\<exists>out s' mid later r r' p.
      messageBranch message s = (out, s')
    \<and> wtrace s' = wtrace s @ E_NextWriter TextMessage None # E_Write message r # mid
        @ [E_WriterClose p r']
    \<and> list_all drainEvent mid
    \<and> receivedOf mid = buf (send (interfere s))
    \<and> writtenOf mid = concat (map (\<lambda>m. [newline, m]) (buf (send (interfere s))))
    \<and> buf (send s') = later
    \<and> subseq later (sentBy (concat (take (length (buf (send (interfere s)))) (tl (interf s)))))
    \<and> out = (if r' = None then Continue else Return)
    \<and> (r \<noteq> None \<or> list_ex failedWrite mid \<longrightarrow> r' \<noteq> None)"
proof -
  from messageBranch_snapshot [OF assms, of message] obtain s3 mid later where
    d: "drain (length (buf (send (interfere s)))) (atSnapshot message s) = (True, s3)"
    "wtrace s3 = wtrace (atSnapshot message s) @ mid"
    "receivedOf mid = buf (send (interfere s))"
    "writtenOf mid = concat (map (\<lambda>m. [newline, m]) (buf (send (interfere s))))"
    "buf (send s3) = later"
    "subseq later (sentBy (concat (take (length (buf (send (interfere s)))) (tl (interf s)))))"
    "list_all drainEvent mid"
    "werr (atSnapshot message s) \<noteq> None \<or> list_ex failedWrite mid \<longrightarrow> werr s3 \<noteq> None"
    by blast
  define r where "r = writeResult (afterNextWriter s)"
  have mb: "messageBranch message s =
      (if writeResult s3 = None then Continue else Return, snd (WriterClose s3))"
    using messageBranch_ok [OF assms, of message] d(1) by simp
  have tr: "wtrace (snd (WriterClose s3)) =
      wtrace s @ E_NextWriter TextMessage None # E_Write message r # mid
        @ [E_WriterClose (wbuf s3) (writeResult s3)]"
    by (simp add: WriterClose_fields d(2) atSnapshot_fields r_def)
  have "werr (atSnapshot message s) = r"
    by (simp add: atSnapshot_def r_def)
  then have st: "r \<noteq> None \<or> list_ex failedWrite mid \<longrightarrow> writeResult s3 \<noteq> None"
    using d(8) writeResult_sticky [of s3] by auto
  have bf: "buf (send (snd (WriterClose s3))) = later"
    by (simp add: WriterClose_fields d(5))
  show ?thesis
    using mb tr d(7) d(3) d(4) bf d(6) st
    by (intro exI [of _ "if writeResult s3 = None then Continue else Return"]
        exI [of _ "snd (WriterClose s3)"] exI [of _ mid] exI [of _ later] exI [of _ r]
        exI [of _ "writeResult s3"] exI [of _ "wbuf s3"]) simp
qed

lemma messageBranch_run:
  "\<exists>out s' new. messageBranch message s = (out, s') \<and> wtrace s' = wtrace s @ new
     \<and> out \<noteq> Stuck \<and> \<not> list_ex testedFailure (butlast new)
     \<and> (list_ex failedWrite new \<longrightarrow> out = Return)"
proof (cases "headFault s")
  case (Some e)
  let ?s' = "emitW (E_NextWriter TextMessage (Some e))
      (s\<lparr>faults := tl (faults s), werr := None, wbuf := []\<rparr>)"
  show ?thesis
    unfolding messageBranch_fail [OF Some]
    by (intro exI [of _ Return] exI [of _ ?s'] exI [of _ "[E_NextWriter TextMessage (Some e)]"])
      simp
next
  case None
  from messageBranch_ok_run [OF None, of message] obtain out s' mid r r' p where
    m: "messageBranch message s = (out, s')"
    "wtrace s' = wtrace s @ E_NextWriter TextMessage None # E_Write message r # mid
        @ [E_WriterClose p r']"
    "list_all drainEvent mid" "out = (if r' = None then Continue else Return)"
    "r \<noteq> None \<or> list_ex failedWrite mid \<longrightarrow> r' \<noteq> None" by blast
  let ?new = "E_NextWriter TextMessage None # E_Write message r # mid @ [E_WriterClose p r']"
  have bl: "butlast ?new = E_NextWriter TextMessage None # E_Write message r # mid"
    by (simp add: butlast_append)
  have "\<not> list_ex testedFailure (butlast ?new)"
    unfolding bl using drainEvents_not_tested [OF m(3)] by simp
  moreover have "list_ex failedWrite ?new \<longrightarrow> out = Return"
    using m(4,5) by auto
  moreover have "out \<noteq> Stuck" using m(4) by simp
  ultimately show ?thesis using m(1,2) by blast
qed

lemma headFault_interfere [simp]: "headFault (interfere s) = headFault s"
  by (simp add: headFault_def)

lemma iteration_tick:
  "ready t = OnTick \<Longrightarrow>
   iteration t s =
     (if headFault s = None then Continue else Return,
      emitW (E_WriteMessage PingMessage [] (headFault s))
        ((emitW (E_SetWriteDeadline (clock t + writeWait)) s)\<lparr>faults := tl (faults s)\<rparr>))"
  by (simp add: iteration_def WriteMessage_eq SetWriteDeadline_def split: option.splits)

lemma iteration_closed:
  "ready t = OnSend \<Longrightarrow> buf (send (interfere s)) = [] \<Longrightarrow> closed (send (interfere s)) \<Longrightarrow>
   iteration t s =
     (Return,
      emitW (E_WriteMessage CloseMessage [] (headFault s))
        ((emitW (E_SetWriteDeadline (clock t + writeWait)) (emitW (E_Recv None) (interfere s)))
          \<lparr>faults := tl (faults s)\<rparr>))"
  by (simp add: iteration_def chanRecv_Nil WriteMessage_eq SetWriteDeadline_def)

lemma iteration_empty:
  "ready t = OnSend \<Longrightarrow> buf (send (interfere s)) = [] \<Longrightarrow> \<not> closed (send (interfere s)) \<Longrightarrow>
   iteration t s = (Continue, interfere s)"
  by (simp add: iteration_def chanRecv_Nil)

lemma iteration_message:
  "ready t = OnSend \<Longrightarrow> buf (send (interfere s)) = m # ms \<Longrightarrow>
   iteration t s =
     messageBranch m (SetWriteDeadline (clock t + writeWait)
       (emitW (E_Recv (Some m)) ((interfere s)\<lparr>send := (send (interfere s))\<lparr>buf := ms\<rparr>\<rparr>)))"
  by (simp add: iteration_def chanRecv_Cons)

lemma iteration_run:
  "\<exists>out s' new. iteration t s = (out, s') \<and> wtrace s' = wtrace s @ new
     \<and> out \<noteq> Stuck \<and> \<not> list_ex testedFailure (butlast new)
     \<and> (list_ex failedWrite new \<longrightarrow> out = Return)"
proof (cases "ready t")
  case OnTick
  let ?s' = "emitW (E_WriteMessage PingMessage [] (headFault s))
        ((emitW (E_SetWriteDeadline (clock t + writeWait)) s)\<lparr>faults := tl (faults s)\<rparr>)"
  show ?thesis
    unfolding iteration_tick [OF OnTick]
    by (intro exI [of _ "if headFault s = None then Continue else Return"] exI [of _ ?s']
        exI [of _ "[E_SetWriteDeadline (clock t + writeWait),
                    E_WriteMessage PingMessage [] (headFault s)]"]) simp
next
  case OnSend
  show ?thesis
  proof (cases "buf (send (interfere s))")
    case Nil
    show ?thesis
    proof (cases "closed (send (interfere s))")
      case True
      let ?s' = "emitW (E_WriteMessage CloseMessage [] (headFault s))
        ((emitW (E_SetWriteDeadline (clock t + writeWait)) (emitW (E_Recv None) (interfere s)))
          \<lparr>faults := tl (faults s)\<rparr>)"
      show ?thesis
        unfolding iteration_closed [OF OnSend Nil True]
        by (intro exI [of _ Return] exI [of _ ?s']
            exI [of _ "[E_Recv None, E_SetWriteDeadline (clock t + writeWait),
                        E_WriteMessage CloseMessage [] (headFault s)]"]) simp
    next
      case False
      show ?thesis
        unfolding iteration_empty [OF OnSend Nil False]
        by (intro exI [of _ Continue] exI [of _ "interfere s"] exI [of _ "[]"]) simp
    qed
  next
    case (Cons m ms)
    define s0 where "s0 = SetWriteDeadline (clock t + writeWait)
       (emitW (E_Recv (Some m)) ((interfere s)\<lparr>send := (send (interfere s))\<lparr>buf := ms\<rparr>\<rparr>))"
    have it: "iteration t s = messageBranch m s0"
      unfolding s0_def using iteration_message [OF OnSend Cons] .
    have t0: "wtrace s0 = wtrace s @ [E_Recv (Some m), E_SetWriteDeadline (clock t + writeWait)]"
      by (simp add: s0_def SetWriteDeadline_def)
    from messageBranch_run [of m s0] obtain out s' new where
      m: "messageBranch m s0 = (out, s')" "wtrace s' = wtrace s0 @ new" "out \<noteq> Stuck"
      "\<not> list_ex testedFailure (butlast new)" "list_ex failedWrite new \<longrightarrow> out = Return"
      by blast
    let ?new = "[E_Recv (Some m), E_SetWriteDeadline (clock t + writeWait)] @ new"
    have "wtrace s' = wtrace s @ ?new" using m(2) t0 by simp
    moreover have "\<not> list_ex testedFailure (butlast ?new)"
      using m(4) by (simp add: butlast_append)
    moreover have "list_ex failedWrite ?new \<longrightarrow> out = Return" using m(5) by simp
    ultimately show ?thesis using it m(1,3) by (metis (no_types))
  qed
qed

lemma tested_in_butlast:
  "\<not> list_ex failedWrite xs \<Longrightarrow> \<not> list_ex testedFailure (butlast ys) \<Longrightarrow>
   \<not> list_ex testedFailure (butlast (xs @ ys))"
proof -
  assume a: "\<not> list_ex failedWrite xs" and b: "\<not> list_ex testedFailure (butlast ys)"
  have "\<not> list_ex testedFailure xs"
    using a by (induction xs) (auto dest: testedFailure_failedWrite)
  moreover have "\<not> list_ex testedFailure (butlast xs)"
    using a by (induction xs) (auto dest: testedFailure_failedWrite)
  ultimately show ?thesis using b by (simp add: butlast_append)
qed

lemma writeLoop_run:
  "\<exists>st s' new. writeLoop ts s = (st, s') \<and> wtrace s' = wtrace s @ new
     \<and> st \<noteq> Blocked \<and> \<not> list_ex testedFailure (butlast new)
     \<and> (list_ex failedWrite new \<longrightarrow> st = Exited)"
proof (induction ts arbitrary: s)
  case Nil
  show ?case by (intro exI [of _ Suspended] exI [of _ s] exI [of _ "[]"]) simp
next
  case (Cons t ts)
  from iteration_run [of t s] obtain out s1 new1 where
    i: "iteration t s = (out, s1)" "wtrace s1 = wtrace s @ new1" "out \<noteq> Stuck"
    "\<not> list_ex testedFailure (butlast new1)" "list_ex failedWrite new1 \<longrightarrow> out = Return"
    by blast
  show ?case
  proof (cases out)
    case Continue
    from Cons [of s1] obtain st s' new where
      l: "writeLoop ts s1 = (st, s')" "wtrace s' = wtrace s1 @ new" "st \<noteq> Blocked"
      "\<not> list_ex testedFailure (butlast new)" "list_ex failedWrite new \<longrightarrow> st = Exited"
      by blast
    have nf: "\<not> list_ex failedWrite new1" using i(5) Continue by auto
    have "writeLoop (t # ts) s = (st, s')" using i(1) Continue l(1) by simp
    moreover have "wtrace s' = wtrace s @ (new1 @ new)" using i(2) l(2) by simp
    moreover have "\<not> list_ex testedFailure (butlast (new1 @ new))"
      using nf l(4) by (rule tested_in_butlast)
    moreover have "list_ex failedWrite (new1 @ new) \<longrightarrow> st = Exited" using nf l(5) by simp
    ultimately show ?thesis using l(3) by blast
  next
    case Return
    have "writeLoop (t # ts) s = (Exited, s1)" using i(1) Return by simp
    then show ?thesis using i(2,4) by blast
  next
    case Stuck
    then show ?thesis using i(3) by simp
  qed
qed

lemma writePump_run:
  "\<exists>st s' new. writePump ts s = (st, s') \<and> st \<noteq> Blocked
     \<and> wtrace s' = wtrace s @ E_NewTicker pingPeriod # new
         @ (if st = Exited then [E_TickerStop, E_ConnClose] else [])
     \<and> \<not> list_ex testedFailure (butlast new)
     \<and> (list_ex failedWrite new \<longrightarrow> st = Exited)"
proof -
  from writeLoop_run [of ts "emitW (E_NewTicker pingPeriod) s"] obtain st s1 new where
    l: "writeLoop ts (emitW (E_NewTicker pingPeriod) s) = (st, s1)"
    "wtrace s1 = wtrace (emitW (E_NewTicker pingPeriod) s) @ new" "st \<noteq> Blocked"
    "\<not> list_ex testedFailure (butlast new)" "list_ex failedWrite new \<longrightarrow> st = Exited"
    by blast
  show ?thesis
  proof (cases st)
    case Exited
    have "writePump ts s = (Exited, writePump_deferred s1)"
      using l(1) Exited by (simp add: writePump_def)
    moreover have "wtrace (writePump_deferred s1) =
        wtrace s @ E_NewTicker pingPeriod # new @ [E_TickerStop, E_ConnClose]"
      using l(2) by (simp add: writePump_deferred_def)
    ultimately show ?thesis using l(4) by (intro exI [of _ Exited]
          exI [of _ "writePump_deferred s1"] exI [of _ new]) simp
  next
    case Suspended
    have "writePump ts s = (Suspended, s1)"
      using l(1) Suspended by (simp add: writePump_def)
    moreover have "wtrace s1 = wtrace s @ E_NewTicker pingPeriod # new"
      using l(2) by simp
    ultimately show ?thesis using l(4,5) Suspended
      by (intro exI [of _ Suspended] exI [of _ s1] exI [of _ new]) simp
  next
    case Blocked
    then show ?thesis using l(3) by simp
  qed
qed

lemma stopsAt_quiet: "list_all (\<lambda>x. \<not> recvOrWrite x) ys \<Longrightarrow> stopsAt P ys"
  by (induction ys) auto

lemma stopsAt_butlast:
  "\<not> list_ex P (butlast xs) \<Longrightarrow> list_all (\<lambda>x. \<not> recvOrWrite x) ys \<Longrightarrow> stopsAt P (xs @ ys)"
proof (induction xs)
  case Nil
  then show ?case by (simp add: stopsAt_quiet)
next
  case (Cons x xs)
  show ?case
  proof (cases "xs = []")
    case True
    then show ?thesis using Cons.prems(2) by (simp add: stopsAt_quiet)
  next
    case False
    then show ?thesis using Cons by simp
  qed
qed

lemma writeLoop_append:
  "writeLoop pre s = (Suspended, s1) \<Longrightarrow> writeLoop (pre @ ts) s = writeLoop ts s1"
proof (induction pre arbitrary: s)
  case Nil
  then show ?case by simp
next
  case (Cons t pre)
  obtain out s' where i: "iteration t s = (out, s')" by (cases "iteration t s") auto
  show ?case
  proof (cases out)
    case Continue
    then show ?thesis using Cons i by simp
  next
    case Return
    then show ?thesis using Cons.prems i by simp
  next
    case Stuck
    then show ?thesis using Cons.prems i by simp
  qed
qed

lemma writePump_Suspended:
  "writePump pre s = (Suspended, s1) \<Longrightarrow>
   writeLoop pre (emitW (E_NewTicker pingPeriod) s) = (Suspended, s1)"
  by (auto simp: writePump_def split: prod.splits status.splits)

lemma stalled_trace:
  "wtrace (snd (writePump stalledTurns stalledWriter)) =
   [E_NewTicker 54000000000, E_Recv (Some msgA), E_SetWriteDeadline 10000000000,
    E_NextWriter TextMessage None, E_Write msgA None,
    E_Write [CHR 0x0A] None, E_Recv (Some msgB), E_Write msgB (Some ErrNet),
    E_Write [CHR 0x0A] (Some ErrNet), E_Recv (Some msgC), E_Write msgC (Some ErrNet),
    E_WriterClose (msgA @ [CHR 0x0A]) (Some ErrNet), E_TickerStop, E_ConnClose]"
  by code_simp

text \<open>
  C5, as stated, fails: "for every error returned by a write operation in the message
  branch the loop exits without further queue receives or writes". In the scenario the
  \<^verbatim>\<open>w.Write\<close> of the second message returns an error; the source drops that result, so
  the pump goes on to write the separator, receive the third message and write it.
\<close>

theorem write_failure_counterexample:
  "\<not> stopsAt failedWrite (wtrace (snd (writePump stalledTurns stalledWriter)))"
  unfolding stalled_trace by simp

text \<open>
  C5, amended. An error returned by a write operation whose result the pump tests
  (\<^verbatim>\<open>NextWriter\<close>, the \<^verbatim>\<open>Close\<close> of the message writer, the send of the liveness
  probe) ends the loop at once: no receive from the queue and no write follows it. An
  error returned by a \<^verbatim>\<open>w.Write\<close> is not tested at the call; the message writer
  remembers it and \<^verbatim>\<open>Close\<close> reports it, so the pump still returns in that iteration.
  Hence whenever any write operation has failed the pump has returned and run its
  deferred cleanup.
\<close>

theorem writePump_stops_at_tested_failure:
  "\<exists>st s' new. writePump ts s = (st, s') \<and> wtrace s' = wtrace s @ new
     \<and> stopsAt testedFailure new
     \<and> (list_ex failedWrite new \<longrightarrow>
          st = Exited \<and> (\<exists>pre. new = pre @ [E_TickerStop, E_ConnClose]))"
proof -
  from writePump_run [of ts s] obtain st s' new where
    r: "writePump ts s = (st, s')"
    "wtrace s' = wtrace s @ E_NewTicker pingPeriod # new
         @ (if st = Exited then [E_TickerStop, E_ConnClose] else [])"
    "\<not> list_ex testedFailure (butlast new)" "list_ex failedWrite new \<longrightarrow> st = Exited"
    by blast
  let ?tail = "if st = Exited then [E_TickerStop, E_ConnClose] else []"
  let ?all = "E_NewTicker pingPeriod # new @ ?tail"
  have q: "list_all (\<lambda>x. \<not> recvOrWrite x) ?tail" by simp
  have "stopsAt testedFailure (new @ ?tail)" using r(3) q by (rule stopsAt_butlast)
  then have s: "stopsAt testedFailure ?all" by simp
  have f: "list_ex failedWrite ?all \<longrightarrow> list_ex failedWrite new" by simp
  have "list_ex failedWrite ?all \<longrightarrow>
      st = Exited \<and> (\<exists>pre. ?all = pre @ [E_TickerStop, E_ConnClose])"
  proof
    assume "list_ex failedWrite ?all"
    with f r(4) have e: "st = Exited" by blast
    then have "?all = (E_NewTicker pingPeriod # new) @ [E_TickerStop, E_ConnClose]" by simp
    with e show "st = Exited \<and> (\<exists>pre. ?all = pre @ [E_TickerStop, E_ConnClose])" by blast
  qed
  with r(1,2) s show ?thesis by blast
qed

theorem writePump_stops_at_tested_failure_witness:
  "list_ex failedWrite (wtrace (snd (writePump stalledTurns stalledWriter)))
   \<and> fst (writePump stalledTurns stalledWriter) = Exited
   \<and> stopsAt testedFailure (wtrace (snd (writePump stalledTurns stalledWriter)))"
proof -
  have f: "list_ex failedWrite (wtrace (snd (writePump stalledTurns stalledWriter)))"
    unfolding stalled_trace by simp
  have e: "wtrace stalledWriter = []" by (simp add: stalledWriter_def newWriter_def)
  from writePump_stops_at_tested_failure [of stalledTurns stalledWriter] obtain st s' new where
    r: "writePump stalledTurns stalledWriter = (st, s')" "wtrace s' = wtrace stalledWriter @ new"
    "stopsAt testedFailure new" "list_ex failedWrite new \<longrightarrow> st = Exited" by blast
  have n: "new = wtrace (snd (writePump stalledTurns stalledWriter))"
    using r(1,2) e by simp
  from f r(1,3,4) show ?thesis unfolding n [symmetric] by simp
qed

lemma NextWriter_result: "fst (NextWriter ty s) = headFault s"
  by (simp add: NextWriter_eq)

text \<open>
  C3. In the message branch, once \<^verbatim>\<open>NextWriter\<close> has given a writer and the first
  message is written, the loop receives exactly the messages that were in the queue at
  the instant line 107 read its length, in queue order, each after a separator, all
  between the \<^verbatim>\<open>NextWriter\<close> and the \<^verbatim>\<open>Close\<close> of the same writer, whatever the
  other goroutines do to the channel meanwhile and whatever the writes return. What is
  left in the queue afterwards was sent after that instant. The loop never waits: no run
  of the write pump is blocked in a receive.
\<close>

theorem messageBranch_drains_snapshot:
  "(fst (NextWriter TextMessage s) = None \<longrightarrow>
     (\<exists>out s' r mid p r' later.
        messageBranch message s = (out, s') \<and> out \<noteq> Stuck
      \<and> wtrace s' = wtrace s @ E_NextWriter TextMessage None # E_Write message r # mid
          @ [E_WriterClose p r']
      \<and> list_all drainEvent mid
      \<and> receivedOf mid = buf (send (interfere s))
      \<and> writtenOf mid = concat (map (\<lambda>m. [newline, m]) (buf (send (interfere s))))
      \<and> buf (send s') = later
      \<and> subseq later
          (sentBy (concat (take (length (buf (send (interfere s)))) (tl (interf s)))))))
   \<and> fst (writePump ts s0) \<noteq> Blocked"
proof
  show "fst (NextWriter TextMessage s) = None \<longrightarrow>
     (\<exists>out s' r mid p r' later.
        messageBranch message s = (out, s') \<and> out \<noteq> Stuck
      \<and> wtrace s' = wtrace s @ E_NextWriter TextMessage None # E_Write message r # mid
          @ [E_WriterClose p r']
      \<and> list_all drainEvent mid
      \<and> receivedOf mid = buf (send (interfere s))
      \<and> writtenOf mid = concat (map (\<lambda>m. [newline, m]) (buf (send (interfere s))))
      \<and> buf (send s') = later
      \<and> subseq later
          (sentBy (concat (take (length (buf (send (interfere s)))) (tl (interf s))))))"
  proof
    assume "fst (NextWriter TextMessage s) = None"
    then have h: "headFault s = None" by (simp add: NextWriter_result)
    from messageBranch_ok_run [OF h, of message] obtain out s' mid later r r' p where
      m: "messageBranch message s = (out, s')"
      "wtrace s' = wtrace s @ E_NextWriter TextMessage None # E_Write message r # mid
        @ [E_WriterClose p r']"
      "list_all drainEvent mid"
      "receivedOf mid = buf (send (interfere s))"
      "writtenOf mid = concat (map (\<lambda>m. [newline, m]) (buf (send (interfere s))))"
      "buf (send s') = later"
      "subseq later (sentBy (concat (take (length (buf (send (interfere s)))) (tl (interf s)))))"
      "out = (if r' = None then Continue else Return)" by blast
    have "out \<noteq> Stuck" using m(8) by simp
    with m(1-7) show "\<exists>out s' r mid p r' later.
        messageBranch message s = (out, s') \<and> out \<noteq> Stuck
      \<and> wtrace s' = wtrace s @ E_NextWriter TextMessage None # E_Write message r # mid
          @ [E_WriterClose p r']
      \<and> list_all drainEvent mid
      \<and> receivedOf mid = buf (send (interfere s))
      \<and> writtenOf mid = concat (map (\<lambda>m. [newline, m]) (buf (send (interfere s))))
      \<and> buf (send s') = later
      \<and> subseq later
          (sentBy (concat (take (length (buf (send (interfere s)))) (tl (interf s)))))"
      by blast
  qed
next
  show "fst (writePump ts s0) \<noteq> Blocked"
    using writePump_run [of ts s0] by auto
qed

lemma racing_run:
  "messageBranch ''m1'' racingWriter =
     (Continue,
      \<lparr>send = \<lparr>buf = [''m4''], closed = True\<rparr>, interf = [], faults = [], werr = None,
        wbuf = ''m1'' @ [CHR 0x0A] @ ''m2'' @ [CHR 0x0A] @ ''m3'',
        wtrace = [E_NextWriter TextMessage None, E_Write ''m1'' None,
          E_Write [CHR 0x0A] None, E_Recv (Some ''m2''), E_Write ''m2'' None,
          E_Write [CHR 0x0A] None, E_Recv (Some ''m3''), E_Write ''m3'' None,
          E_WriterClose (''m1'' @ [CHR 0x0A] @ ''m2'' @ [CHR 0x0A] @ ''m3'') None]\<rparr>)"
  by code_simp

theorem messageBranch_drains_snapshot_witness:
  "fst (NextWriter TextMessage racingWriter) = None
   \<and> buf (send (interfere racingWriter)) = [''m2'', ''m3'']
   \<and> fst (messageBranch ''m1'' racingWriter) = Continue
   \<and> receivedOf (wtrace (snd (messageBranch ''m1'' racingWriter))) = [''m2'', ''m3'']
   \<and> buf (send (snd (messageBranch ''m1'' racingWriter))) = [''m4'']
   \<and> (\<exists>r mid p r'. wtrace (snd (messageBranch ''m1'' racingWriter)) =
         wtrace racingWriter @ E_NextWriter TextMessage None # E_Write ''m1'' r # mid
           @ [E_WriterClose p r']
       \<and> receivedOf mid = [''m2'', ''m3''])"
proof -
  have a: "fst (NextWriter TextMessage racingWriter) = None" by code_simp
  have b: "buf (send (interfere racingWriter)) = [''m2'', ''m3'']" by code_simp
  have c: "fst (messageBranch ''m1'' racingWriter) = Continue"
    "receivedOf (wtrace (snd (messageBranch ''m1'' racingWriter))) = [''m2'', ''m3'']"
    "buf (send (snd (messageBranch ''m1'' racingWriter))) = [''m4'']"
    unfolding racing_run by simp_all
  from a messageBranch_drains_snapshot [of racingWriter "''m1''" "[]" racingWriter]
  obtain out s' r mid p r' where
    m: "messageBranch ''m1'' racingWriter = (out, s')"
    "wtrace s' = wtrace racingWriter @ E_NextWriter TextMessage None # E_Write ''m1'' r # mid
        @ [E_WriterClose p r']"
    "receivedOf mid = buf (send (interfere racingWriter))" by blast
  have "\<exists>r mid p r'. wtrace (snd (messageBranch ''m1'' racingWriter)) =
         wtrace racingWriter @ E_NextWriter TextMessage None # E_Write ''m1'' r # mid
           @ [E_WriterClose p r']
       \<and> receivedOf mid = [''m2'', ''m3'']"
    using m b by auto
  with a b c show ?thesis by blast
qed

text \<open>
  C6. When the pump, still running after the turns \<open>pre\<close>, takes the channel case and
  finds the channel closed and drained, it sets the write deadline, sends one close
  message, and returns whatever that send answered; then the deferred function stops
  the ticker and closes the connection. Nothing else is written, and later turns are
  not looked at.
\<close>

theorem writePump_closed_queue:
  assumes "writePump pre s = (Suspended, s1)" and "ready t = OnSend"
    and "buf (send (interfere s1)) = []" and "closed (send (interfere s1))"
  shows "\<exists>s' r. writePump (pre @ t # post) s = (Exited, s')
    \<and> wtrace s' = wtrace s1 @ [E_Recv None, E_SetWriteDeadline (clock t + writeWait),
        E_WriteMessage CloseMessage [] r, E_TickerStop, E_ConnClose]"
proof -
  let ?s0 = "emitW (E_NewTicker pingPeriod) s"
  let ?s2 = "emitW (E_WriteMessage CloseMessage [] (headFault s1))
        ((emitW (E_SetWriteDeadline (clock t + writeWait)) (emitW (E_Recv None) (interfere s1)))
          \<lparr>faults := tl (faults s1)\<rparr>)"
  have "writeLoop pre ?s0 = (Suspended, s1)" using assms(1) by (rule writePump_Suspended)
  then have "writeLoop (pre @ t # post) ?s0 = writeLoop (t # post) s1"
    by (rule writeLoop_append)
  also have "\<dots> = (Exited, ?s2)"
    by (simp add: iteration_closed [OF assms(2,3,4)])
  finally have "writePump (pre @ t # post) s = (Exited, writePump_deferred ?s2)"
    by (simp add: writePump_def)
  moreover have "wtrace (writePump_deferred ?s2) =
      wtrace s1 @ [E_Recv None, E_SetWriteDeadline (clock t + writeWait),
        E_WriteMessage CloseMessage [] (headFault s1), E_TickerStop, E_ConnClose]"
    by (simp add: writePump_deferred_def)
  ultimately show ?thesis by blast
qed

lemma evicted_first:
  "writePump [\<lparr>ready = OnSend, clock = 0\<rparr>] evictedWriter =
     (Suspended,
      \<lparr>send = \<lparr>buf = [], closed = True\<rparr>, interf = [], faults = [], werr = None,
        wbuf = ''bye'',
        wtrace = [E_NewTicker 54000000000, E_Recv (Some ''bye''),
          E_SetWriteDeadline 10000000000, E_NextWriter TextMessage None,
          E_Write ''bye'' None, E_WriterClose ''bye'' None]\<rparr>)"
  by code_simp

lemma evicted_trace:
  "wtrace (snd (writePump ([\<lparr>ready = OnSend, clock = 0\<rparr>] @ \<lparr>ready = OnSend, clock = 5\<rparr>
      # [\<lparr>ready = OnTick, clock = 9\<rparr>]) evictedWriter)) =
     [E_NewTicker 54000000000, E_Recv (Some ''bye''),
      E_SetWriteDeadline 10000000000, E_NextWriter TextMessage None,
      E_Write ''bye'' None, E_WriterClose ''bye'' None,
      E_Recv None, E_SetWriteDeadline 10000000005, E_WriteMessage CloseMessage [] None,
      E_TickerStop, E_ConnClose]"
  by code_simp

theorem writePump_closed_queue_witness:
  "fst (writePump [\<lparr>ready = OnSend, clock = 0\<rparr>] evictedWriter) = Suspended
   \<and> ready \<lparr>ready = OnSend, clock = 5\<rparr> = OnSend
   \<and> buf (send (interfere (snd (writePump [\<lparr>ready = OnSend, clock = 0\<rparr>] evictedWriter)))) = []
   \<and> closed (send (interfere (snd (writePump [\<lparr>ready = OnSend, clock = 0\<rparr>] evictedWriter))))
   \<and> fst (writePump ([\<lparr>ready = OnSend, clock = 0\<rparr>] @ \<lparr>ready = OnSend, clock = 5\<rparr>
        # [\<lparr>ready = OnTick, clock = 9\<rparr>]) evictedWriter) = Exited
   \<and> wtrace (snd (writePump ([\<lparr>ready = OnSend, clock = 0\<rparr>] @ \<lparr>ready = OnSend, clock = 5\<rparr>
        # [\<lparr>ready = OnTick, clock = 9\<rparr>]) evictedWriter)) =
     [E_NewTicker 54000000000, E_Recv (Some ''bye''),
      E_SetWriteDeadline 10000000000, E_NextWriter TextMessage None,
      E_Write ''bye'' None, E_WriterClose ''bye'' None,
      E_Recv None, E_SetWriteDeadline 10000000005, E_WriteMessage CloseMessage [] None,
      E_TickerStop, E_ConnClose]"
proof -
  define s1 where "s1 = snd (writePump [\<lparr>ready = OnSend, clock = 0\<rparr>] evictedWriter)"
  have a: "writePump [\<lparr>ready = OnSend, clock = 0\<rparr>] evictedWriter = (Suspended, s1)"
    unfolding s1_def evicted_first by simp
  have b: "ready \<lparr>ready = OnSend, clock = 5\<rparr> = OnSend" by simp
  have c: "buf (send (interfere s1)) = []" "closed (send (interfere s1))"
    unfolding s1_def evicted_first by (simp_all add: headBatch_def)
  from writePump_closed_queue [OF a b c, of "[\<lparr>ready = OnTick, clock = 9\<rparr>]"]
  have d: "fst (writePump ([\<lparr>ready = OnSend, clock = 0\<rparr>] @ \<lparr>ready = OnSend, clock = 5\<rparr>
        # [\<lparr>ready = OnTick, clock = 9\<rparr>]) evictedWriter) = Exited"
    by auto
  have a': "fst (writePump [\<lparr>ready = OnSend, clock = 0\<rparr>] evictedWriter) = Suspended"
    unfolding evicted_first by simp
  note c' = c [unfolded s1_def]
  from a' b c' d evicted_trace show ?thesis by blast
qed























text \<open>
  C8. The period of the liveness probe is 54 seconds, nine tenths of the 60 seconds of
  the idle timeout and so strictly less; the product in the constant expression stays
  far below the bound of a 64-bit duration. The write pump starts its ticker with it.
\<close>

theorem pingPeriod_below_pongWait:
  "pingPeriod < pongWait \<and> pongWait = 60 * Second \<and> pingPeriod = 54 * Second
   \<and> 10 * pingPeriod = 9 * pongWait \<and> Second = 1000000000 \<and> pongWait * 9 < 2 ^ 63
   \<and> (\<exists>rest. wtrace (snd (writePump ts s)) = wtrace s @ E_NewTicker (54 * Second) # rest)"
proof -
  have p: "pingPeriod = 54 * Second" by (simp add: pingPeriod_def pongWait_def Second_def)
  have "\<exists>rest. wtrace (snd (writePump ts s)) = wtrace s @ E_NewTicker (54 * Second) # rest"
    using writePump_run [of ts s] unfolding p by force
  moreover have "pingPeriod < pongWait" "pongWait = 60 * Second"
    "10 * pingPeriod = 9 * pongWait" "Second = 1000000000" "pongWait * 9 < 2 ^ 63"
    by (simp_all add: pingPeriod_def pongWait_def Second_def)
  ultimately show ?thesis using p by blast
qed

theorem pingPeriod_below_pongWait_witness:
  "pingPeriod = 54000000000 \<and> pongWait = 60000000000 \<and> pingPeriod < pongWait
   \<and> hd (wtrace (snd (writePump stalledTurns stalledWriter))) = E_NewTicker 54000000000
   \<and> (\<exists>rest. wtrace (snd (writePump stalledTurns stalledWriter)) =
         wtrace stalledWriter @ E_NewTicker (54 * Second) # rest)"
proof -
  have h: "hd (wtrace (snd (writePump stalledTurns stalledWriter))) = E_NewTicker 54000000000"
    unfolding stalled_trace by simp
  have v: "pingPeriod = 54000000000" "pongWait = 60000000000"
    by (simp_all add: pingPeriod_def pongWait_def Second_def)
  from h v pingPeriod_below_pongWait [of stalledTurns stalledWriter] show ?thesis
    by blast
qed

lemma readPump_first_pong:
  assumes "at \<le> now + pongWait"
  shows "\<exists>rest. rtrace (snd (readPump now s (Pong at d # inp))) =
      rtrace s @ [E_SetReadLimit 512, E_SetReadDeadline (now + pongWait), E_SetPongHandler,
        E_SetReadDeadline (at + pongWait)] @ rest"
proof -
  let ?s1 = "SetReadDeadline (at + pongWait) (readPump_init now s)"
  have step: "readLoop (readPump_init now s) (Pong at d # inp) = readLoop ?s1 inp"
    using assms by (simp add: readLoop_Pong readPump_init_def expired_def)
  from readLoop_body [of ?s1 inp] obtain b s' body where
    l: "readLoop ?s1 inp = (b, s')" "rtrace s' = rtrace ?s1 @ body" by blast
  have "rtrace (snd (readPump now s (Pong at d # inp))) =
      rtrace s' @ (if b then [E_Unregister, E_ConnClose] else [])"
    by (simp add: readPump_unfold step l(1) readPump_deferred_def)
  then show ?thesis by (simp add: l(2) readPump_init_def)
qed

lemma readPump_deadlines:
  "\<exists>body. rtrace (snd (readPump now s inp)) =
      rtrace s @ [E_SetReadLimit 512, E_SetReadDeadline (now + pongWait), E_SetPongHandler]
        @ body @ [E_Unregister, E_ConnClose]
    \<and> (\<forall>t'. E_SetReadDeadline t' \<in> set body
          \<longrightarrow> (\<exists>at d. Pong at d \<in> set inp \<and> t' = at + pongWait))"
proof -
  from readPump_run [of now s inp] obtain s4 body where
    r: "readPump now s inp = (Exited, readPump_deferred s4)"
    "rtrace (readPump_deferred s4) =
       rtrace s @ [E_SetReadLimit 512, E_SetReadDeadline (now + pongWait), E_SetPongHandler]
         @ body @ [E_Unregister, E_ConnClose]"
    "list_all (loopEvent 512 inp) body" by blast
  have "\<forall>t'. E_SetReadDeadline t' \<in> set body
          \<longrightarrow> (\<exists>at d. Pong at d \<in> set inp \<and> t' = at + pongWait)"
    using loopEvent_deadline [OF r(3)] by blast
  with r(1,2) show ?thesis by auto
qed

lemma pongWait_value: "pongWait = 60 * Second"
  by (simp add: pongWait_def)

text \<open>
  C9. The pong handler sets the read deadline to the clock reading plus 60 seconds and
  returns no error, and a read that meets a pong in time goes on with that deadline. The
  read pump sets the deadline once, to its start plus 60 seconds, before the loop; every
  other deadline it sets is the arrival of a pong plus 60 seconds.
\<close>

theorem pongHandler_extends_deadline:
  "pongHandler t d c =
     (None, c\<lparr>readDeadline := Some (t + 60 * Second),
              rtrace := rtrace c @ [E_SetReadDeadline (t + 60 * Second)]\<rparr>)
   \<and> (pongSet c \<and> \<not> expired c at \<longrightarrow>
        ReadMessage c (Pong at d # rest) =
          ReadMessage (c\<lparr>readDeadline := Some (at + 60 * Second),
              rtrace := rtrace c @ [E_SetReadDeadline (at + 60 * Second)]\<rparr>) rest)
   \<and> (\<exists>body. rtrace (snd (readPump now s inp)) =
          rtrace s @ [E_SetReadLimit 512, E_SetReadDeadline (now + 60 * Second), E_SetPongHandler]
            @ body @ [E_Unregister, E_ConnClose]
        \<and> (\<forall>t'. E_SetReadDeadline t' \<in> set body
              \<longrightarrow> (\<exists>at d. Pong at d \<in> set inp \<and> t' = at + 60 * Second)))
   \<and> (at \<le> now + 60 * Second \<longrightarrow>
        (\<exists>rest'. rtrace (snd (readPump now s (Pong at d # inp))) =
           rtrace s @ [E_SetReadLimit 512, E_SetReadDeadline (now + 60 * Second),
             E_SetPongHandler, E_SetReadDeadline (at + 60 * Second)] @ rest'))"
proof -
  have h: "pongHandler t d c =
     (None, c\<lparr>readDeadline := Some (t + pongWait),
              rtrace := rtrace c @ [E_SetReadDeadline (t + pongWait)]\<rparr>)" for t c
    by (simp add: pongHandler_def SetReadDeadline_def emitR_def)
  have "pongSet c \<and> \<not> expired c at \<longrightarrow>
        ReadMessage c (Pong at d # rest) =
          ReadMessage (c\<lparr>readDeadline := Some (at + pongWait),
              rtrace := rtrace c @ [E_SetReadDeadline (at + pongWait)]\<rparr>) rest"
    by (simp add: handlePong_def h)
  moreover note h [of t c] readPump_deadlines [of now s inp]
  moreover have "at \<le> now + pongWait \<longrightarrow>
        (\<exists>rest'. rtrace (snd (readPump now s (Pong at d # inp))) =
           rtrace s @ [E_SetReadLimit 512, E_SetReadDeadline (now + pongWait),
             E_SetPongHandler, E_SetReadDeadline (at + pongWait)] @ rest')"
    using readPump_first_pong [of at now s d inp] by blast
  ultimately show ?thesis unfolding pongWait_value by blast
qed

theorem pongHandler_extends_deadline_witness:
  "pongSet (readPump_init 0 newReader) \<and> \<not> expired (readPump_init 0 newReader) 30000000000
   \<and> (30000000000::int) \<le> 0 + 60 * Second
   \<and> fst (ReadMessage (readPump_init 0 newReader) (Pong 30000000000 [] # [Data 80000000000 ''hi'']))
       = Payload ''hi''
   \<and> rtrace (snd (readPump 0 newReader (Pong 30000000000 [] # [Data 80000000000 ''hi'']))) =
       [E_SetReadLimit 512, E_SetReadDeadline 60000000000, E_SetPongHandler,
        E_SetReadDeadline 90000000000, E_Broadcast ''hi'', E_Unregister, E_ConnClose]
   \<and> rtrace (snd (readPump 0 newReader [Data 80000000000 ''hi''])) =
       [E_SetReadLimit 512, E_SetReadDeadline 60000000000, E_SetPongHandler,
        E_Unregister, E_ConnClose]
   \<and> (\<exists>rest'. rtrace (snd (readPump 0 newReader (Pong 30000000000 [] # [Data 80000000000 ''hi'']))) =
         rtrace newReader @ [E_SetReadLimit 512, E_SetReadDeadline (0 + 60 * Second),
           E_SetPongHandler, E_SetReadDeadline (30000000000 + 60 * Second)] @ rest')"
proof -
  have a: "pongSet (readPump_init 0 newReader) \<and> \<not> expired (readPump_init 0 newReader) 30000000000"
    by (simp add: readPump_init_def expired_def newReader_def pongWait_def Second_def)
  have b: "(30000000000::int) \<le> 0 + 60 * Second" by (simp add: Second_def)
  have hi: "normalizeMessage ''hi'' = ''hi''" by code_simp
  note th = pongHandler_extends_deadline [of 0 "[]" "readPump_init 0 newReader" 30000000000
      "[Data 80000000000 ''hi'']" 0 newReader "[Data 80000000000 ''hi'']"]
  have c: "fst (ReadMessage (readPump_init 0 newReader) (Pong 30000000000 [] # [Data 80000000000 ''hi'']))
       = Payload ''hi''"
    using a th by (simp add: expired_def readPump_init_def Second_def)
  have d: "rtrace (snd (readPump 0 newReader (Pong 30000000000 [] # [Data 80000000000 ''hi'']))) =
       [E_SetReadLimit 512, E_SetReadDeadline 60000000000, E_SetPongHandler,
        E_SetReadDeadline 90000000000, E_Broadcast ''hi'', E_Unregister, E_ConnClose]"
    by (simp add: readPump_unfold readPump_init_def readLoop_Pong readLoop_Data readLoop_Nil
        expired_def newReader_def pongWait_def Second_def readPump_deferred_def hi)
  have e: "rtrace (snd (readPump 0 newReader [Data 80000000000 ''hi''])) =
       [E_SetReadLimit 512, E_SetReadDeadline 60000000000, E_SetPongHandler,
        E_Unregister, E_ConnClose]"
    by (simp add: readPump_unfold readPump_init_def readLoop_Data
        expired_def newReader_def pongWait_def Second_def readPump_deferred_def)
  from a b c d e th show ?thesis by blast
qed

end
